theory Spec2Isabelle
  imports Main "HOL-Library.Multiset" "HOL-Library.Sublist"
begin

chapter \<open>The model\<close>

section \<open>Strings\<close>

text \<open>
  A Go string is a sequence of bytes; it is modelled as a \<open>string\<close> (a list of 8-bit
  characters), and \<open>len\<close> is \<open>length\<close>.
\<close>

abbreviation newline :: char where
  "newline \<equiv> CHR 0x0A"

section \<open>Comment-aware brace extraction (nginx.go, extractBlock)\<close>

text \<open>
  The loop of \<open>extractBlock\<close> ranges over the runes of \<open>s\<close> with \<open>i\<close> the byte offset
  of each rune. The four characters it compares with (newline, \<open>#\<close>, \<open>{\<close>, \<open>}\<close>) are
  ASCII, and no byte of a multi-byte UTF-8 sequence (or of an invalid one, which is
  read one byte at a time) is ASCII, so scanning byte by byte visits the same
  offsets with the same decisions. The loop state is \<open>braceCount\<close>, \<open>inComment\<close>
  and the offset \<open>i\<close>; the first argument is the whole input, sliced at the return.
\<close>

fun extractBlock_loop :: "string \<Rightarrow> string \<Rightarrow> int \<Rightarrow> bool \<Rightarrow> nat \<Rightarrow> string \<times> int" where
  "extractBlock_loop s [] braceCount inComment i = (s, - 1)"
| "extractBlock_loop s (c # cs) braceCount inComment i =
     (if c = newline then extractBlock_loop s cs braceCount False (Suc i)
      else if inComment then extractBlock_loop s cs braceCount inComment (Suc i)
      else if c = CHR ''#'' then extractBlock_loop s cs braceCount True (Suc i)
      else if c = CHR ''{'' then extractBlock_loop s cs (braceCount + 1) inComment (Suc i)
      else if c = CHR ''}'' then
        (if braceCount - 1 = 0 then (take i s, int i)
         else extractBlock_loop s cs (braceCount - 1) inComment (Suc i))
      else extractBlock_loop s cs braceCount inComment (Suc i))"

definition extractBlock :: "string \<Rightarrow> string \<times> int" where
  "extractBlock s = extractBlock_loop s s 1 False 0"

text \<open>
  The scan as the specification words it: a position is commented when a \<open>#\<close> precedes
  it with no newline from that \<open>#\<close> up to the position; the nesting depth after \<open>k\<close>
  characters is 1 plus the uncommented opening braces minus the uncommented closing
  braces among them; the block closes at \<open>i\<close> when the depth is 0 after the
  character at \<open>i\<close> and was not 0 before.
\<close>

definition in_comment :: "string \<Rightarrow> nat \<Rightarrow> bool" where
  "in_comment s i \<longleftrightarrow> (\<exists>j<i. s ! j = CHR ''#'' \<and> (\<forall>k. j \<le> k \<and> k < i \<longrightarrow> s ! k \<noteq> newline))"

definition brace_delta :: "string \<Rightarrow> nat \<Rightarrow> int" where
  "brace_delta s i =
     (if in_comment s i \<or> s ! i = newline then 0
      else if s ! i = CHR ''{'' then 1
      else if s ! i = CHR ''}'' then - 1
      else 0)"

definition depth_after :: "string \<Rightarrow> nat \<Rightarrow> int" where
  "depth_after s k = 1 + (\<Sum>i<k. brace_delta s i)"

definition closes_at :: "string \<Rightarrow> nat \<Rightarrow> bool" where
  "closes_at s i \<longleftrightarrow> i < length s \<and> depth_after s (Suc i) = 0 \<and> (\<forall>k\<le>i. depth_after s k \<noteq> 0)"

definition never_closes :: "string \<Rightarrow> bool" where
  "never_closes s \<longleftrightarrow> (\<forall>i<length s. depth_after s (Suc i) \<noteq> 0)"

section \<open>The Go \<open>strings\<close> functions the program calls\<close>

text \<open>
  \<open>strings.Index(s, sub)\<close>: the offset of the first occurrence of \<open>sub\<close> in \<open>s\<close>;
  Go's -1 is \<open>None\<close>. \<open>strings.HasPrefix(s, p)\<close> is \<open>prefix p s\<close>.
\<close>

fun Index :: "string \<Rightarrow> string \<Rightarrow> nat option" where
  "Index [] sub = (if sub = [] then Some 0 else None)"
| "Index (c # cs) sub = (if prefix sub (c # cs) then Some 0 else map_option Suc (Index cs sub))"

text \<open>
  \<open>strings.ReplaceAll(s, old, new)\<close> for a non-empty \<open>old\<close> (the program only passes
  the literals \<open>[IP]\<close> and \<open>-\<close>): the non-overlapping occurrences of \<open>old\<close>, found
  from left to right, are replaced by \<open>new\<close>. The last equation is never reached
  from the program.
\<close>

function ReplaceAll :: "string \<Rightarrow> string \<Rightarrow> string \<Rightarrow> string" where
  "ReplaceAll [] (c # old) new = []"
| "ReplaceAll (x # xs) (c # old) new =
     (if prefix (c # old) (x # xs) then new @ ReplaceAll (drop (length old) xs) (c # old) new
      else x # ReplaceAll xs (c # old) new)"
| "ReplaceAll s [] new = s"
  by pat_completeness auto
termination
  by (relation "measure (\<lambda>(s, old, new). length s)") auto

text \<open>
  The slice expression \<open>s[lo:hi]\<close>. Go panics unless \<open>lo \<le> hi \<le> len(s)\<close>; every use
  below is shown to be in range (\<open>Index_Some_D\<close>, \<open>port_slice_in_range\<close>).
\<close>

definition slice :: "string \<Rightarrow> nat \<Rightarrow> nat \<Rightarrow> string" where
  "slice s lo hi = take (hi - lo) (drop lo s)"

lemma Index_Some_D:
  "Index s sub = Some i \<Longrightarrow> i + length sub \<le> length s \<and> take (length sub) (drop i s) = sub"
proof (induction s arbitrary: i)
  case Nil
  then show ?case by (simp split: if_splits)
next
  case (Cons c cs)
  show ?case
  proof (cases "prefix sub (c # cs)")
    case True
    with Cons.prems have "i = 0" by simp
    with True show ?thesis
      using prefix_length_le[of sub "c # cs"] by (auto simp: prefix_def)
  next
    case False
    with Cons.prems obtain j where "Index cs sub = Some j" "i = Suc j" by auto
    with Cons.IH show ?thesis by simp
  qed
qed

section \<open>Unraid WebUI URL placeholders (processUnraidWebUIURL)\<close>

text \<open>
  The \<open>for\<close> loop of \<open>processUnraidWebUIURL\<close> that strips the \<open>[PORT:xxx]\<close>
  placeholders: \<open>start\<close> is the first \<open>[PORT:\<close>, \<open>end\<close> the first \<open>]\<close> at or after
  \<open>start\<close> (relative to \<open>start\<close>); either missing breaks the loop. Each round
  shortens \<open>result\<close> by 7 bytes, which is the termination measure.
\<close>

function strip_port_placeholders :: "string \<Rightarrow> string" where
  "strip_port_placeholders result =
     (case Index result ''[PORT:'' of
        None \<Rightarrow> result
      | Some start \<Rightarrow>
          (case Index (drop start result) '']'' of
             None \<Rightarrow> result
           | Some end \<Rightarrow>
               strip_port_placeholders
                 (take start result @ slice result (start + 6) (start + end)
                  @ drop (start + end + 1) result)))"
  by pat_completeness auto
termination
proof (relation "measure length", goal_cases)
  case 1
  then show ?case by simp
next
  case (2 result start e)
  from Index_Some_D[OF 2(1)] have a: "start + 6 \<le> length result" by simp
  from Index_Some_D[OF 2(2)] have "e + 1 \<le> length result - start" by simp
  with a have b: "start + e + 1 \<le> length result" by linarith
  show ?case using a b by (simp add: slice_def)
qed

text \<open>
  \<open>url.Parse\<close> and \<open>URL.Hostname\<close> belong to Go's standard library; the function
  takes their composition as the parameter \<open>url_hostname\<close>, \<open>None\<close> when \<open>url.Parse\<close>
  returns an error.
\<close>

definition processUnraidWebUIURL ::
    "(string \<Rightarrow> string option) \<Rightarrow> string \<Rightarrow> string \<Rightarrow> string" where
  "processUnraidWebUIURL url_hostname webUIURL unraidURL =
     (case url_hostname unraidURL of
        None \<Rightarrow> webUIURL
      | Some host \<Rightarrow> strip_port_placeholders (ReplaceAll webUIURL ''[IP]'' host))"

text \<open>
  What \<open>url.Parse(u).Hostname()\<close> gives on a URL of the plain form
  \<open>scheme://host[:port][/path]\<close> with an unbracketed host. It instantiates the
  parameter on concrete inputs.
\<close>

definition plain_url_hostname :: "string \<Rightarrow> string option" where
  "plain_url_hostname u =
     (case Index u ''://'' of
        None \<Rightarrow> None
      | Some i \<Rightarrow> Some (takeWhile (\<lambda>c. c \<noteq> CHR '':'' \<and> c \<noteq> CHR ''/'') (drop (i + 3) u)))"

section \<open>Discovered applications (models.App) and sub-path deduplication\<close>

text \<open>
  Modelled from the spec: \<open>models.App\<close>, the record of a discovered application
  (the \<open>models\<close> package is not among the sources), with the attributes the
  specification lists, which are the fields the discovery code sets. A Go
  \<open>[]models.App\<close> is a list; a nil slice and an empty one are both \<open>[]\<close>.
\<close>

record App =
  Name :: string
  URL :: string
  Icon :: string
  Description :: string
  Status :: string

text \<open>
  \<open>strings.TrimRight(s, cutset)\<close> removes every trailing byte that is in \<open>cutset\<close>;
  \<open>strings.TrimLeft\<close> the leading ones (the program's cutsets are ASCII).
\<close>

definition TrimRight :: "string \<Rightarrow> string \<Rightarrow> string" where
  "TrimRight s cutset = rev (dropWhile (\<lambda>c. c \<in> set cutset) (rev s))"

definition TrimLeft :: "string \<Rightarrow> string \<Rightarrow> string" where
  "TrimLeft s cutset = dropWhile (\<lambda>c. c \<in> set cutset) s"

text \<open>
  The host of an application's URL, as the first loop of \<open>dedupeAppsByBasePath\<close>
  extracts it: what follows the first \<open>://\<close> (the whole URL when there is none), up
  to the first \<open>/\<close>.
\<close>

definition url_host :: "string \<Rightarrow> string" where
  "url_host url =
     (let host = (case Index url ''://'' of None \<Rightarrow> url | Some idx \<Rightarrow> drop (idx + 3) url)
      in case Index host ''/'' of None \<Rightarrow> host | Some idx \<Rightarrow> take idx host)"

text \<open>The first loop: \<open>byHost[host] = append(byHost[host], app)\<close>.\<close>

fun group_byHost :: "App list \<Rightarrow> (string \<rightharpoonup> App list) \<Rightarrow> (string \<rightharpoonup> App list)" where
  "group_byHost [] byHost = byHost"
| "group_byHost (app # apps) byHost =
     (let host = url_host (URL app)
      in group_byHost apps
           (byHost(host \<mapsto> (case byHost host of None \<Rightarrow> [] | Some l \<Rightarrow> l) @ [app])))"

text \<open>
  The innermost loops, for one host: \<open>kept\<close> holds the trimmed URLs kept so far for
  this host, \<open>result\<close> is the slice shared by all hosts.
\<close>

fun keep_loop :: "App list \<Rightarrow> string list \<Rightarrow> App list \<Rightarrow> App list" where
  "keep_loop [] kept result = result"
| "keep_loop (app # hostApps) kept result =
     (let normalizedURL = TrimRight (URL app) ''/'';
          isSubPath = list_ex (\<lambda>keptURL. prefix (keptURL @ ''/'') normalizedURL) kept
      in if \<not> isSubPath then keep_loop hostApps (kept @ [normalizedURL]) (result @ [app])
         else keep_loop hostApps kept result)"

text \<open>
  The loop over \<open>byHost\<close>. Go ranges over a map in an order the runtime chooses, and
  \<open>sort.Slice\<close> is not stable: the order of the keys is the parameter \<open>order\<close> and
  the sorting function the parameter \<open>sortSlice\<close>; the properties below hold for
  every order that lists each key once and every function that sorts by URL length.
\<close>

fun host_loop ::
    "(App list \<Rightarrow> App list) \<Rightarrow> (string \<rightharpoonup> App list) \<Rightarrow> string list \<Rightarrow> App list \<Rightarrow> App list" where
  "host_loop sortSlice byHost [] result = result"
| "host_loop sortSlice byHost (h # hs) result =
     (case byHost h of
        None \<Rightarrow> host_loop sortSlice byHost hs result
      | Some hostApps \<Rightarrow>
          host_loop sortSlice byHost hs (keep_loop (sortSlice hostApps) [] result))"

definition dedupeAppsByBasePath ::
    "(App list \<Rightarrow> App list) \<Rightarrow> string list \<Rightarrow> App list \<Rightarrow> App list" where
  "dedupeAppsByBasePath sortSlice order apps =
     (if length apps = 0 then apps
      else host_loop sortSlice (group_byHost apps Map.empty) order [])"

definition sorts_by_URL_length :: "(App list \<Rightarrow> App list) \<Rightarrow> bool" where
  "sorts_by_URL_length sortSlice \<longleftrightarrow>
     (\<forall>xs. mset (sortSlice xs) = mset xs \<and>
           sorted_wrt (\<lambda>a b. length (URL a) \<le> length (URL b)) (sortSlice xs))"

definition ranges_over :: "string list \<Rightarrow> (string \<rightharpoonup> 'a) \<Rightarrow> bool" where
  "ranges_over order byHost \<longleftrightarrow> distinct order \<and> set order = dom byHost"

text \<open>
  The specification's wording of the deduplication, for the sorted applications of one
  host: an application is kept exactly when no application kept before it has a
  trimmed URL which, followed by \<open>/\<close>, is a prefix of its own trimmed URL.
\<close>

definition extends_kept :: "App list \<Rightarrow> App \<Rightarrow> bool" where
  "extends_kept keptApps app \<longleftrightarrow>
     (\<exists>k \<in> set keptApps. prefix (TrimRight (URL k) ''/'' @ ''/'') (TrimRight (URL app) ''/''))"

definition host_apps :: "App list \<Rightarrow> string \<Rightarrow> App list" where
  "host_apps apps h = filter (\<lambda>a. url_host (URL a) = h) apps"

definition mkApp :: "string \<Rightarrow> string \<Rightarrow> App" where
  "mkApp name url =
     \<lparr>Name = name, URL = url, Icon = '''', Description = '''', Status = ''online''\<rparr>"

text \<open>The inner loop run for one host on its own: \<open>kept\<close> starts empty.\<close>

definition host_keep :: "App list \<Rightarrow> App list" where
  "host_keep hostApps = keep_loop hostApps [] []"

text \<open>
  A stable insertion sort by URL length: one of the functions \<open>sort.Slice\<close> can be
  with the comparison \<open>len(hostApps[i].URL) < len(hostApps[j].URL)\<close>.
\<close>

definition insertion_sortSlice :: "App list \<Rightarrow> App list" where
  "insertion_sortSlice = sort_key (\<lambda>a. length (URL a))"

section \<open>Include inlining (nginx.go, resolveIncludes)\<close>

text \<open>
  What \<open>resolveIncludes\<close> takes from outside the repository's own code is a record of
  parameters: the regular expression \<open>includeRe\<close> (Go's \<open>regexp\<close>), the path check
  \<open>urlvalidation.ValidateNginxConfigPath\<close>, and the file system as the calls see it.
  \<open>re_segments\<close> is how \<open>includeRe.ReplaceAllStringFunc\<close> cuts the content into the
  text between matches and the matches; \<open>re_submatch\<close> is the first group of
  \<open>includeRe.FindStringSubmatch\<close>, \<open>None\<close> when it returns fewer than two strings;
  \<open>glob\<close> is \<open>None\<close> on an error; \<open>evalSymlinks\<close>, \<open>stat_size\<close> and \<open>readFile\<close> are
  \<open>None\<close> on an error. Log lines are not modelled.
\<close>

datatype segment = Text string | Match string

record include_env =
  re_segments :: "string \<Rightarrow> segment list"
  re_submatch :: "string \<Rightarrow> string option"
  trimSpace :: "string \<Rightarrow> string"
  validPath :: "string \<Rightarrow> bool"
  glob :: "string \<Rightarrow> string list option"
  evalSymlinks :: "string \<Rightarrow> string option"
  stat_size :: "string \<Rightarrow> int option"
  readFile :: "string \<Rightarrow> string option"

definition maxIncludeFileSize :: int where
  "maxIncludeFileSize = 2 ^ 20"

text \<open>
  \<open>depth\<close> is a Go \<open>int\<close>; it only ever grows from 0 by steps of 1 and stops beyond 3,
  so it is an unbounded integer here. The recursive call sits inside the loop over the
  glob matches, inside the callback of \<open>ReplaceAllStringFunc\<close>.
\<close>

function resolveIncludes :: "include_env \<Rightarrow> string \<Rightarrow> int \<Rightarrow> string" where
  "resolveIncludes env content depth =
     (if depth > 3 then content
      else concat (map (\<lambda>seg.
        case seg of
          Text t \<Rightarrow> t
        | Match m \<Rightarrow>
            (case re_submatch env m of
               None \<Rightarrow> m
             | Some g \<Rightarrow>
                 (let includePath = trimSpace env g in
                  if \<not> validPath env includePath then ''# include skipped (validation failed)''
                  else
                    (case glob env includePath of
                       None \<Rightarrow> ''# include not found''
                     | Some matches \<Rightarrow>
                         if length matches = 0 then ''# include not found''
                         else concat (map (\<lambda>f.
                           case evalSymlinks env f of
                             None \<Rightarrow> []
                           | Some resolved \<Rightarrow>
                               if \<not> validPath env resolved then []
                               else
                                 (case stat_size env resolved of
                                    None \<Rightarrow> []
                                  | Some fsize \<Rightarrow>
                                      if fsize > maxIncludeFileSize then []
                                      else
                                        (case readFile env resolved of
                                           None \<Rightarrow> []
                                         | Some data \<Rightarrow>
                                             resolveIncludes env data (depth + 1) @ [newline])))
                           matches)))))
        (re_segments env content)))"
  by pat_completeness auto
termination
  by (relation "measure (\<lambda>(env, content, depth). nat (4 - depth))") auto

text \<open>
  A self-referential include graph: the only file, \<open>self.conf\<close>, holds the directive
  that includes it.
\<close>

definition cyclic_env :: include_env where
  "cyclic_env = \<lparr>
     re_segments = (\<lambda>c. if c = ''include self.conf;'' then [Match c] else [Text c]),
     re_submatch = (\<lambda>m. Some '' self.conf''),
     trimSpace = dropWhile (\<lambda>c. c = CHR '' ''),
     validPath = (\<lambda>p. True),
     glob = (\<lambda>p. Some [p]),
     evalSymlinks = Some,
     stat_size = (\<lambda>p. Some 18),
     readFile = (\<lambda>p. Some ''include self.conf;'') \<rparr>"

section \<open>Override store and admin handlers\<close>

text \<open>
  Modelled from the spec: \<open>models.DiscoveredAppOverride\<close>, the persisted customisation
  keyed by URL (the \<open>models\<close> package is not among the sources): the fields the
  handlers read and write (\<open>URL\<close>, \<open>Source\<close>, \<open>Hidden\<close>, \<open>Category\<close>, \<open>Groups\<close>) and the
  cosmetic name and icon overrides the specification mentions. The fields carry the
  prefix \<open>ov_\<close> to keep them apart from those of \<open>App\<close>. A nil \<open>Groups\<close> slice and an
  empty one are both \<open>[]\<close>.
\<close>

record DiscoveredAppOverride =
  ov_URL :: string
  ov_Source :: string
  ov_Hidden :: bool
  ov_Category :: string
  ov_Groups :: "string list"
  ov_Name :: string
  ov_Icon :: string

text \<open>
  Modelled from the spec: \<open>RawDiscoveredApp\<close>, the source-tagged discovered application
  that \<open>discovery.GetAllRawDiscoveredApps\<close> returns (not among the sources); the
  handlers read its \<open>URL\<close> and \<open>Source\<close>.
\<close>

record RawDiscoveredApp = App +
  Source :: string

text \<open>
  The override store as \<open>database.GetAllDiscoveredOverrides\<close> returns it: a map from
  URL to override. \<open>database.GetDiscoveredOverride\<close> is the lookup (nil is \<open>None\<close>).
\<close>

type_synonym override_store = "string \<rightharpoonup> DiscoveredAppOverride"

text \<open>\<open>BulkDiscoveredAppsRequest\<close>; the fields carry the prefix \<open>req_\<close>.\<close>

record BulkDiscoveredAppsRequest =
  req_URLs :: "string list"
  req_Action :: string
  req_Category :: string
  req_Groups :: "string list"

text \<open>
  What a handler did to the store, in order: the lookups of
  \<open>database.GetDiscoveredOverride\<close> and the one call of
  \<open>database.SaveDiscoveredOverridesBatch\<close>.
\<close>

datatype store_access = Lookup string | SaveBatch "DiscoveredAppOverride list"

datatype bulk_response =
    HttpError nat string
  | BulkOk nat

definition maxBulkURLs :: nat where
  "maxBulkURLs = 100"

text \<open>The loop \<open>urlToSource[a.URL] = a.Source\<close> over the raw applications.\<close>

fun urlToSource_of :: "RawDiscoveredApp list \<Rightarrow> (string \<rightharpoonup> string) \<Rightarrow> (string \<rightharpoonup> string)" where
  "urlToSource_of [] m = m"
| "urlToSource_of (a # rawApps) m = urlToSource_of rawApps (m(URL a \<mapsto> Source a))"

text \<open>
  The body of the loop over \<open>req.URLs\<close>: the override to save for one URL. A missing
  key of \<open>urlToSource\<close> reads as the empty string.
\<close>

definition bulk_override ::
    "override_store \<Rightarrow> (string \<rightharpoonup> string) \<Rightarrow> BulkDiscoveredAppsRequest \<Rightarrow> string
      \<Rightarrow> DiscoveredAppOverride" where
  "bulk_override store urlToSource req url =
     (let existing = (case store url of
                        Some e \<Rightarrow> e
                      | None \<Rightarrow> \<lparr>ov_URL = url,
                                  ov_Source = (case urlToSource url of None \<Rightarrow> '''' | Some s \<Rightarrow> s),
                                  ov_Hidden = False, ov_Category = '''', ov_Groups = [],
                                  ov_Name = '''', ov_Icon = ''''\<rparr>);
          existing = existing\<lparr>ov_Hidden := False\<rparr>;
          existing = (if req_Category req \<noteq> '''' then existing\<lparr>ov_Category := req_Category req\<rparr>
                      else existing);
          existing = (if length (req_Groups req) > 0 then existing\<lparr>ov_Groups := req_Groups req\<rparr>
                      else existing)
      in existing)"

text \<open>
  \<open>BulkDiscoveredAppsHandler\<close>. Parameters: \<open>decode\<close> is
  \<open>json.NewDecoder(r.Body).Decode(&req)\<close> (\<open>Inl\<close> its error text), for which the
  next section gives the model \<open>Decode\<close>;
  \<open>saveBatch\<close> is \<open>database.SaveDiscoveredOverridesBatch\<close> (not among the sources),
  giving its error if any and the store it leaves; \<open>rawApps\<close> is what
  \<open>discovery.GetAllRawDiscoveredApps\<close> returns. The result is the response, the
  store afterwards and the accesses made to the store.
\<close>

definition BulkDiscoveredAppsHandler ::
    "(string \<Rightarrow> string + BulkDiscoveredAppsRequest)
      \<Rightarrow> (override_store \<Rightarrow> DiscoveredAppOverride list \<Rightarrow> string option \<times> override_store)
      \<Rightarrow> RawDiscoveredApp list \<Rightarrow> override_store \<Rightarrow> string \<Rightarrow> string
      \<Rightarrow> bulk_response \<times> override_store \<times> store_access list" where
  "BulkDiscoveredAppsHandler decode saveBatch rawApps store method body =
     (if method \<noteq> ''POST'' then (HttpError 405 ''Method not allowed'', store, [])
      else
        (case decode body of
           Inl err \<Rightarrow> (HttpError 400 (''Invalid JSON: '' @ err), store, [])
         | Inr req \<Rightarrow>
             if length (req_URLs req) = 0 then (HttpError 400 ''No URLs provided'', store, [])
             else if length (req_URLs req) > maxBulkURLs then
               (HttpError 400 ''Too many URLs (max 100)'', store, [])
             else if req_Action req \<noteq> ''show'' then
               (HttpError 400 (''Invalid action: '' @ req_Action req), store, [])
             else
               (let urlToSource = urlToSource_of rawApps Map.empty;
                    overrides = map (bulk_override store urlToSource req) (req_URLs req);
                    accesses = map Lookup (req_URLs req) @ [SaveBatch overrides]
                in case saveBatch store overrides of
                     (Some err, store') \<Rightarrow>
                       (HttpError 500 (''Failed to save: '' @ err), store', accesses)
                   | (None, store') \<Rightarrow> (BulkOk (length overrides), store', accesses))))"

datatype admin_response =
    ActiveStale "RawDiscoveredApp list" "DiscoveredAppOverride list"
  | StatusOk
  | AdminError nat string

text \<open>
  The loop of the GET branch over \<open>allOverrides\<close>, a Go map ranged over in the order
  \<open>order\<close> the runtime chooses: the overrides whose key is not an active URL.
\<close>

fun stale_loop ::
    "override_store \<Rightarrow> string set \<Rightarrow> string list \<Rightarrow> DiscoveredAppOverride list
      \<Rightarrow> DiscoveredAppOverride list" where
  "stale_loop allOverrides activeURLs [] stale = stale"
| "stale_loop allOverrides activeURLs (url # urls) stale =
     (case allOverrides url of
        None \<Rightarrow> stale_loop allOverrides activeURLs urls stale
      | Some override \<Rightarrow>
          if url \<notin> activeURLs then stale_loop allOverrides activeURLs urls (stale @ [override])
          else stale_loop allOverrides activeURLs urls stale)"

text \<open>
  \<open>AdminDiscoveredAppsHandler\<close>. \<open>decode\<close> is the JSON decoding of the PUT body,
  \<open>query_url\<close> the \<open>url\<close> query parameter; \<open>db_save\<close> and \<open>db_delete\<close> are
  \<open>database.SaveDiscoveredOverride\<close> and \<open>database.DeleteDiscoveredOverride\<close> (not
  among the sources), giving their error if any and the store they leave. The result
  is the response and the store afterwards.
\<close>

definition AdminDiscoveredAppsHandler ::
    "(string \<Rightarrow> string + DiscoveredAppOverride)
      \<Rightarrow> (override_store \<Rightarrow> DiscoveredAppOverride \<Rightarrow> string option \<times> override_store)
      \<Rightarrow> (override_store \<Rightarrow> string \<Rightarrow> string option \<times> override_store)
      \<Rightarrow> string list \<Rightarrow> RawDiscoveredApp list \<Rightarrow> override_store
      \<Rightarrow> string \<Rightarrow> string \<Rightarrow> string
      \<Rightarrow> admin_response \<times> override_store" where
  "AdminDiscoveredAppsHandler decode db_save db_delete order rawApps store method body query_url =
     (if method = ''GET'' then
        (let allOverrides = store;
             activeURLs = URL ` set rawApps;
             stale = stale_loop allOverrides activeURLs order []
         in (ActiveStale rawApps stale, store))
      else if method = ''PUT'' then
        (case decode body of
           Inl err \<Rightarrow> (AdminError 400 (''Invalid JSON: '' @ err), store)
         | Inr ov \<Rightarrow>
             if ov_URL ov = '''' then (AdminError 400 ''URL is required'', store)
             else
               (case db_save store ov of
                  (Some err, store') \<Rightarrow> (AdminError 500 (''Failed to save: '' @ err), store')
                | (None, store') \<Rightarrow> (StatusOk, store')))
      else if method = ''DELETE'' then
        (if query_url = '''' then (AdminError 400 ''URL parameter required'', store)
         else
           (case db_delete store query_url of
              (Some err, store') \<Rightarrow> (AdminError 500 (''Failed to delete: '' @ err), store')
            | (None, store') \<Rightarrow> (StatusOk, store')))
      else (AdminError 405 ''Method not allowed'', store))"

definition active_of :: "admin_response \<Rightarrow> RawDiscoveredApp list" where
  "active_of r = (case r of ActiveStale active stale \<Rightarrow> active | _ \<Rightarrow> [])"

definition stale_of :: "admin_response \<Rightarrow> DiscoveredAppOverride list" where
  "stale_of r = (case r of ActiveStale active stale \<Rightarrow> stale | _ \<Rightarrow> [])"

text \<open>
  Modelled from the spec: a store whose \<open>SaveOverridesBatch\<close> persists every override
  of the batch under its URL and reports no error
  (\<open>database.SaveDiscoveredOverridesBatch\<close> is not among the sources). It instantiates
  the parameter \<open>saveBatch\<close> on concrete inputs.
\<close>

definition save_all :: "override_store \<Rightarrow> DiscoveredAppOverride list \<Rightarrow> string option \<times> override_store" where
  "save_all store overrides = (None, fold (\<lambda>ov m. m(ov_URL ov \<mapsto> ov)) overrides store)"

text \<open>
  A decoder that knows one text (a stand-in on concrete inputs for \<open>encoding/json\<close>, as
  a whole or for its step \<open>d.unmarshal\<close> on the bytes of one value).
\<close>

definition decode_one :: "string \<Rightarrow> 'a \<Rightarrow> string \<Rightarrow> string + 'a" where
  "decode_one known req body = (if body = known then Inr req else Inl ''EOF'')"

definition show_request :: "nat \<Rightarrow> BulkDiscoveredAppsRequest" where
  "show_request n =
     \<lparr>req_URLs = replicate n ''https://app.local'', req_Action = ''show'',
      req_Category = ''Media'', req_Groups = []\<rparr>"

text \<open>
  Modelled from the spec: a store whose \<open>SaveOverride\<close> and \<open>DeleteOverride\<close> write and
  remove the entry of one URL and report no error (\<open>database.SaveDiscoveredOverride\<close>
  and \<open>database.DeleteDiscoveredOverride\<close> are not among the sources). They
  instantiate the parameters \<open>db_save\<close> and \<open>db_delete\<close> on concrete inputs.
\<close>

definition save_one :: "override_store \<Rightarrow> DiscoveredAppOverride \<Rightarrow> string option \<times> override_store" where
  "save_one store ov = (None, store(ov_URL ov \<mapsto> ov))"

definition delete_one :: "override_store \<Rightarrow> string \<Rightarrow> string option \<times> override_store" where
  "delete_one store url = (None, store(url := None))"

definition mkRaw :: "string \<Rightarrow> string \<Rightarrow> string \<Rightarrow> RawDiscoveredApp" where
  "mkRaw name url src =
     \<lparr>Name = name, URL = url, Icon = '''', Description = '''', Status = ''online'', Source = src\<rparr>"

definition mkOverride :: "string \<Rightarrow> string \<Rightarrow> bool \<Rightarrow> DiscoveredAppOverride" where
  "mkOverride url name hidden =
     \<lparr>ov_URL = url, ov_Source = ''docker'', ov_Hidden = hidden, ov_Category = ''Media'',
      ov_Groups = [''admins''], ov_Name = name, ov_Icon = ''''\<rparr>"

section \<open>The JSON decoder of the bulk handler (encoding/json: the scanner, Decoder.Decode, Valid)\<close>

text \<open>
  \<open>BulkDiscoveredAppsHandler\<close> reads its body with
  \<open>json.NewDecoder(r.Body).Decode(&req)\<close>. The decoder belongs to the Go standard
  library and is not among the sources; what the handler's check of the body depends on
  is modelled here from the library (\<open>encoding/json\<close>, files \<open>scanner.go\<close> and
  \<open>stream.go\<close>): the scanner, a state machine fed one byte at a time, which
  \<open>Decoder.readValue\<close> runs to find the end of the first JSON value of the input and
  which \<open>json.Valid\<close> runs over a whole text. The filling of the request from the bytes
  of that value (\<open>d.unmarshal\<close>, by reflection) and the wording of a syntax error
  (\<open>quoteChar\<close>) stay parameters.

  A byte is a \<open>char\<close>. \<open>scan_state\<close> names the step functions of the scanner (the
  value of its field \<open>step\<close>), \<open>parse_state\<close> the entries of its stack \<open>parseState\<close>,
  \<open>scan_code\<close> the codes a step returns.
\<close>

datatype scan_state =
    StateBeginValueOrEmpty | StateBeginValue | StateBeginStringOrEmpty | StateBeginString
  | StateEndValue | StateEndTop
  | StateInString | StateInStringEsc
  | StateInStringEscU | StateInStringEscU1 | StateInStringEscU12 | StateInStringEscU123
  | StateNeg | State1 | State0 | StateDot | StateDot0 | StateE | StateESign | StateE0
  | StateT | StateTr | StateTru
  | StateF | StateFa | StateFal | StateFals
  | StateN | StateNu | StateNul
  | StateError

datatype parse_state = ParseObjectKey | ParseObjectValue | ParseArrayValue

datatype scan_code =
    ScanContinue | ScanBeginLiteral | ScanBeginObject | ScanObjectKey | ScanObjectValue
  | ScanEndObject | ScanBeginArray | ScanArrayValue | ScanEndArray | ScanSkipSpace
  | ScanEnd | ScanError

text \<open>
  The errors of \<open>readValue\<close>: \<open>io.EOF\<close>, \<open>io.ErrUnexpectedEOF\<close> and the scanner's
  \<open>SyntaxError\<close>, kept as the offending byte and the context of the message.
\<close>

datatype decode_error = EOF | ErrUnexpectedEOF | SyntaxError char string

record scanner =
  scan_step :: scan_state
  parseState :: "parse_state list"
  scan_err :: "decode_error option"
  endTop :: bool

definition scanner_reset :: scanner where
  "scanner_reset = \<lparr>scan_step = StateBeginValue, parseState = [], scan_err = None, endTop = False\<rparr>"

definition maxNestingDepth :: nat where
  "maxNestingDepth = 10000"

definition isSpace :: "char \<Rightarrow> bool" where
  "isSpace c \<longleftrightarrow> c = CHR '' '' \<or> c = CHR 0x09 \<or> c = CHR 0x0D \<or> c = CHR 0x0A"

definition isDigit :: "char \<Rightarrow> bool" where
  "isDigit c \<longleftrightarrow> c \<in> set ''0123456789''"

definition isDigit19 :: "char \<Rightarrow> bool" where
  "isDigit19 c \<longleftrightarrow> c \<in> set ''123456789''"

definition isHex :: "char \<Rightarrow> bool" where
  "isHex c \<longleftrightarrow> c \<in> set ''0123456789abcdefABCDEF''"

definition dquote :: char where
  "dquote = CHR 0x22"

definition backslash :: char where
  "backslash = CHR 0x5C"

text \<open>\<open>s.error(c, context)\<close>.\<close>

definition scanner_error :: "scanner \<Rightarrow> char \<Rightarrow> string \<Rightarrow> scan_code \<times> scanner" where
  "scanner_error s c ctx = (ScanError, s\<lparr>scan_step := StateError, scan_err := Some (SyntaxError c ctx)\<rparr>)"

definition pushParseState ::
    "scanner \<Rightarrow> char \<Rightarrow> parse_state \<Rightarrow> scan_code \<Rightarrow> scan_code \<times> scanner" where
  "pushParseState s c newParseState successState =
     (let s' = s\<lparr>parseState := parseState s @ [newParseState]\<rparr>
      in if length (parseState s') \<le> maxNestingDepth then (successState, s')
         else scanner_error s' c ''exceeded max depth'')"

definition popParseState :: "scanner \<Rightarrow> scanner" where
  "popParseState s =
     (let n = length (parseState s) - 1;
          s' = s\<lparr>parseState := take n (parseState s)\<rparr>
      in if n = 0 then s'\<lparr>scan_step := StateEndTop, endTop := True\<rparr>
         else s'\<lparr>scan_step := StateEndValue\<rparr>)"

text \<open>
  \<open>stateEndTop\<close>: the value is complete. A byte that is no space is an error for the
  next call only; this call returns \<open>scanEnd\<close> either way.
\<close>

definition stateEndTop :: "scanner \<Rightarrow> char \<Rightarrow> scan_code \<times> scanner" where
  "stateEndTop s c =
     (if \<not> isSpace c then (ScanEnd, snd (scanner_error s c ''after top-level value''))
      else (ScanEnd, s))"

definition stateEndValue :: "scanner \<Rightarrow> char \<Rightarrow> scan_code \<times> scanner" where
  "stateEndValue s c =
     (let n = length (parseState s)
      in if n = 0 then stateEndTop (s\<lparr>scan_step := StateEndTop, endTop := True\<rparr>) c
         else if isSpace c then (ScanSkipSpace, s\<lparr>scan_step := StateEndValue\<rparr>)
         else
           (case parseState s ! (n - 1) of
              ParseObjectKey \<Rightarrow>
                if c = CHR '':'' then
                  (ScanObjectKey, s\<lparr>parseState := (parseState s)[n - 1 := ParseObjectValue],
                                     scan_step := StateBeginValue\<rparr>)
                else scanner_error s c ''after object key''
            | ParseObjectValue \<Rightarrow>
                if c = CHR '','' then
                  (ScanObjectValue, s\<lparr>parseState := (parseState s)[n - 1 := ParseObjectKey],
                                       scan_step := StateBeginString\<rparr>)
                else if c = CHR ''}'' then (ScanEndObject, popParseState s)
                else scanner_error s c ''after object key:value pair''
            | ParseArrayValue \<Rightarrow>
                if c = CHR '','' then (ScanArrayValue, s\<lparr>scan_step := StateBeginValue\<rparr>)
                else if c = CHR '']'' then (ScanEndArray, popParseState s)
                else scanner_error s c ''after array element''))"

definition stateBeginValue :: "scanner \<Rightarrow> char \<Rightarrow> scan_code \<times> scanner" where
  "stateBeginValue s c =
     (if isSpace c then (ScanSkipSpace, s)
      else if c = CHR ''{'' then
        pushParseState (s\<lparr>scan_step := StateBeginStringOrEmpty\<rparr>) c ParseObjectKey ScanBeginObject
      else if c = CHR ''['' then
        pushParseState (s\<lparr>scan_step := StateBeginValueOrEmpty\<rparr>) c ParseArrayValue ScanBeginArray
      else if c = dquote then (ScanBeginLiteral, s\<lparr>scan_step := StateInString\<rparr>)
      else if c = CHR ''-'' then (ScanBeginLiteral, s\<lparr>scan_step := StateNeg\<rparr>)
      else if c = CHR ''0'' then (ScanBeginLiteral, s\<lparr>scan_step := State0\<rparr>)
      else if c = CHR ''t'' then (ScanBeginLiteral, s\<lparr>scan_step := StateT\<rparr>)
      else if c = CHR ''f'' then (ScanBeginLiteral, s\<lparr>scan_step := StateF\<rparr>)
      else if c = CHR ''n'' then (ScanBeginLiteral, s\<lparr>scan_step := StateN\<rparr>)
      else if isDigit19 c then (ScanBeginLiteral, s\<lparr>scan_step := State1\<rparr>)
      else scanner_error s c ''looking for beginning of value'')"

definition stateBeginValueOrEmpty :: "scanner \<Rightarrow> char \<Rightarrow> scan_code \<times> scanner" where
  "stateBeginValueOrEmpty s c =
     (if isSpace c then (ScanSkipSpace, s)
      else if c = CHR '']'' then stateEndValue s c
      else stateBeginValue s c)"

definition stateBeginString :: "scanner \<Rightarrow> char \<Rightarrow> scan_code \<times> scanner" where
  "stateBeginString s c =
     (if isSpace c then (ScanSkipSpace, s)
      else if c = dquote then (ScanBeginLiteral, s\<lparr>scan_step := StateInString\<rparr>)
      else scanner_error s c ''looking for beginning of object key string'')"

definition stateBeginStringOrEmpty :: "scanner \<Rightarrow> char \<Rightarrow> scan_code \<times> scanner" where
  "stateBeginStringOrEmpty s c =
     (if isSpace c then (ScanSkipSpace, s)
      else if c = CHR ''}'' then
        (let n = length (parseState s)
         in stateEndValue (s\<lparr>parseState := (parseState s)[n - 1 := ParseObjectValue]\<rparr>) c)
      else stateBeginString s c)"

definition stateInString :: "scanner \<Rightarrow> char \<Rightarrow> scan_code \<times> scanner" where
  "stateInString s c =
     (if c = dquote then (ScanContinue, s\<lparr>scan_step := StateEndValue\<rparr>)
      else if c = backslash then (ScanContinue, s\<lparr>scan_step := StateInStringEsc\<rparr>)
      else if (of_char c :: nat) < 0x20 then scanner_error s c ''in string literal''
      else (ScanContinue, s))"

definition stateInStringEsc :: "scanner \<Rightarrow> char \<Rightarrow> scan_code \<times> scanner" where
  "stateInStringEsc s c =
     (if c \<in> set ''bfnrt/'' \<or> c = backslash \<or> c = dquote then
        (ScanContinue, s\<lparr>scan_step := StateInString\<rparr>)
      else if c = CHR ''u'' then (ScanContinue, s\<lparr>scan_step := StateInStringEscU\<rparr>)
      else scanner_error s c ''in string escape code'')"

text \<open>
  \<open>stateInStringEscU\<close>, \<open>stateInStringEscU1\<close>, \<open>stateInStringEscU12\<close> and
  \<open>stateInStringEscU123\<close> differ in the state they lead to.
\<close>

definition stateInStringEscU :: "scan_state \<Rightarrow> scanner \<Rightarrow> char \<Rightarrow> scan_code \<times> scanner" where
  "stateInStringEscU nxt s c =
     (if isHex c then (ScanContinue, s\<lparr>scan_step := nxt\<rparr>)
      else scanner_error s c (''in '' @ [backslash] @ ''u hexadecimal character escape''))"

definition stateNeg :: "scanner \<Rightarrow> char \<Rightarrow> scan_code \<times> scanner" where
  "stateNeg s c =
     (if c = CHR ''0'' then (ScanContinue, s\<lparr>scan_step := State0\<rparr>)
      else if isDigit19 c then (ScanContinue, s\<lparr>scan_step := State1\<rparr>)
      else scanner_error s c ''in numeric literal'')"

definition state0 :: "scanner \<Rightarrow> char \<Rightarrow> scan_code \<times> scanner" where
  "state0 s c =
     (if c = CHR ''.'' then (ScanContinue, s\<lparr>scan_step := StateDot\<rparr>)
      else if c = CHR ''e'' \<or> c = CHR ''E'' then (ScanContinue, s\<lparr>scan_step := StateE\<rparr>)
      else stateEndValue s c)"

definition state1 :: "scanner \<Rightarrow> char \<Rightarrow> scan_code \<times> scanner" where
  "state1 s c =
     (if isDigit c then (ScanContinue, s\<lparr>scan_step := State1\<rparr>)
      else state0 s c)"

definition stateDot :: "scanner \<Rightarrow> char \<Rightarrow> scan_code \<times> scanner" where
  "stateDot s c =
     (if isDigit c then (ScanContinue, s\<lparr>scan_step := StateDot0\<rparr>)
      else scanner_error s c ''after decimal point in numeric literal'')"

definition stateDot0 :: "scanner \<Rightarrow> char \<Rightarrow> scan_code \<times> scanner" where
  "stateDot0 s c =
     (if isDigit c then (ScanContinue, s)
      else if c = CHR ''e'' \<or> c = CHR ''E'' then (ScanContinue, s\<lparr>scan_step := StateE\<rparr>)
      else stateEndValue s c)"

definition stateESign :: "scanner \<Rightarrow> char \<Rightarrow> scan_code \<times> scanner" where
  "stateESign s c =
     (if isDigit c then (ScanContinue, s\<lparr>scan_step := StateE0\<rparr>)
      else scanner_error s c ''in exponent of numeric literal'')"

definition stateE :: "scanner \<Rightarrow> char \<Rightarrow> scan_code \<times> scanner" where
  "stateE s c =
     (if c = CHR ''+'' \<or> c = CHR ''-'' then (ScanContinue, s\<lparr>scan_step := StateESign\<rparr>)
      else stateESign s c)"

definition stateE0 :: "scanner \<Rightarrow> char \<Rightarrow> scan_code \<times> scanner" where
  "stateE0 s c =
     (if isDigit c then (ScanContinue, s)
      else stateEndValue s c)"

text \<open>
  The states inside the literals \<open>true\<close>, \<open>false\<close> and \<open>null\<close> (\<open>stateT\<close> to
  \<open>stateNul\<close>): each expects one byte, leads to the next state and otherwise fails with
  \<open>in literal true (expecting 'r')\<close> and the like.
\<close>

definition stateLiteral ::
    "string \<Rightarrow> char \<Rightarrow> scan_state \<Rightarrow> scanner \<Rightarrow> char \<Rightarrow> scan_code \<times> scanner" where
  "stateLiteral lit expected nxt s c =
     (if c = expected then (ScanContinue, s\<lparr>scan_step := nxt\<rparr>)
      else scanner_error s c
             (''in literal '' @ lit @ '' (expecting '' @ [CHR 0x27, expected, CHR 0x27] @ '')''))"

text \<open>\<open>s.step(s, c)\<close>: the step function the scanner is in, applied to the byte.\<close>

definition scanner_step :: "scanner \<Rightarrow> char \<Rightarrow> scan_code \<times> scanner" where
  "scanner_step s c =
     (case scan_step s of
        StateBeginValueOrEmpty \<Rightarrow> stateBeginValueOrEmpty s c
      | StateBeginValue \<Rightarrow> stateBeginValue s c
      | StateBeginStringOrEmpty \<Rightarrow> stateBeginStringOrEmpty s c
      | StateBeginString \<Rightarrow> stateBeginString s c
      | StateEndValue \<Rightarrow> stateEndValue s c
      | StateEndTop \<Rightarrow> stateEndTop s c
      | StateInString \<Rightarrow> stateInString s c
      | StateInStringEsc \<Rightarrow> stateInStringEsc s c
      | StateInStringEscU \<Rightarrow> stateInStringEscU StateInStringEscU1 s c
      | StateInStringEscU1 \<Rightarrow> stateInStringEscU StateInStringEscU12 s c
      | StateInStringEscU12 \<Rightarrow> stateInStringEscU StateInStringEscU123 s c
      | StateInStringEscU123 \<Rightarrow> stateInStringEscU StateInString s c
      | StateNeg \<Rightarrow> stateNeg s c
      | State1 \<Rightarrow> state1 s c
      | State0 \<Rightarrow> state0 s c
      | StateDot \<Rightarrow> stateDot s c
      | StateDot0 \<Rightarrow> stateDot0 s c
      | StateE \<Rightarrow> stateE s c
      | StateESign \<Rightarrow> stateESign s c
      | StateE0 \<Rightarrow> stateE0 s c
      | StateT \<Rightarrow> stateLiteral ''true'' (CHR ''r'') StateTr s c
      | StateTr \<Rightarrow> stateLiteral ''true'' (CHR ''u'') StateTru s c
      | StateTru \<Rightarrow> stateLiteral ''true'' (CHR ''e'') StateEndValue s c
      | StateF \<Rightarrow> stateLiteral ''false'' (CHR ''a'') StateFa s c
      | StateFa \<Rightarrow> stateLiteral ''false'' (CHR ''l'') StateFal s c
      | StateFal \<Rightarrow> stateLiteral ''false'' (CHR ''s'') StateFals s c
      | StateFals \<Rightarrow> stateLiteral ''false'' (CHR ''e'') StateEndValue s c
      | StateN \<Rightarrow> stateLiteral ''null'' (CHR ''u'') StateNu s c
      | StateNu \<Rightarrow> stateLiteral ''null'' (CHR ''l'') StateNul s c
      | StateNul \<Rightarrow> stateLiteral ''null'' (CHR ''l'') StateEndValue s c
      | StateError \<Rightarrow> (ScanError, s))"

text \<open>\<open>nonSpace(b)\<close>: some byte of \<open>b\<close> is no space.\<close>

definition nonSpace :: "string \<Rightarrow> bool" where
  "nonSpace b = list_ex (\<lambda>c. \<not> isSpace c) b"

text \<open>
  \<open>Decoder.readValue\<close> on a decoder that has read nothing yet: the number of bytes of the
  input that make up its first JSON value (with the spaces before it), or the error.
  \<open>buf\<close> is the whole input, \<open>scanp\<close> the index of the byte looked at. The loop leaves at
  the first \<open>scanEnd\<close>; after the closing brace or bracket of the value it does not wait
  for the next byte but feeds a space. The bytes behind the value are never given to
  the scanner. At the end of the input the scanner is fed a space: the value may end
  there (a number, a literal, a string), otherwise the error is \<open>io.ErrUnexpectedEOF\<close>
  when something but spaces was read and \<open>io.EOF\<close> when not. (The decoder reads its
  input in pieces; the pieces do not show in the result.)
\<close>

fun readValue_loop :: "string \<Rightarrow> scanner \<Rightarrow> string \<Rightarrow> nat \<Rightarrow> decode_error + nat" where
  "readValue_loop buf s [] scanp =
     (if fst (scanner_step s (CHR '' '')) = ScanEnd then Inr scanp
      else if nonSpace buf then Inl ErrUnexpectedEOF
      else Inl EOF)"
| "readValue_loop buf s (c # cs) scanp =
     (case scanner_step s c of
        (code, s') \<Rightarrow>
          if code = ScanEnd then Inr scanp
          else if code = ScanEndObject \<or> code = ScanEndArray then
            (case stateEndValue s' (CHR '' '') of
               (code', s'') \<Rightarrow>
                 if code' = ScanEnd then Inr (scanp + 1)
                 else readValue_loop buf s'' cs (scanp + 1))
          else if code = ScanError then
            (case scan_err s' of Some err \<Rightarrow> Inl err | None \<Rightarrow> Inr 0)
          else readValue_loop buf s' cs (scanp + 1))"

definition readValue :: "string \<Rightarrow> decode_error + nat" where
  "readValue body = readValue_loop body scanner_reset body 0"

text \<open>
  \<open>err.Error()\<close> of the errors of \<open>readValue\<close>; \<open>quoteChar\<close>, which prints the offending
  byte, is a parameter.
\<close>

definition Error_text :: "(char \<Rightarrow> string) \<Rightarrow> decode_error \<Rightarrow> string" where
  "Error_text quoteChar err =
     (case err of
        EOF \<Rightarrow> ''EOF''
      | ErrUnexpectedEOF \<Rightarrow> ''unexpected EOF''
      | SyntaxError c ctx \<Rightarrow> ''invalid character '' @ quoteChar c @ '' '' @ ctx)"

text \<open>
  \<open>Decoder.Decode\<close>, called once on a new decoder: \<open>readValue\<close>, then \<open>d.unmarshal\<close> on
  the bytes of the first value. \<open>unmarshal\<close> is a parameter: the request the bytes of a
  value decode to, or its error.
\<close>

definition Decode :: "(char \<Rightarrow> string) \<Rightarrow> (string \<Rightarrow> string + 'a) \<Rightarrow> string \<Rightarrow> string + 'a" where
  "Decode quoteChar unmarshal body =
     (case readValue body of
        Inl err \<Rightarrow> Inl (Error_text quoteChar err)
      | Inr n \<Rightarrow> unmarshal (take n body))"

text \<open>
  \<open>json.Valid\<close> (\<open>checkValid\<close> and \<open>scanner.eof\<close>): whether a text is a valid JSON
  encoding as a whole. It runs the same scanner over every byte.
\<close>

definition scanner_eof :: "scanner \<Rightarrow> scan_code" where
  "scanner_eof s =
     (if scan_err s \<noteq> None then ScanError
      else if endTop s then ScanEnd
      else if endTop (snd (scanner_step s (CHR '' ''))) then ScanEnd
      else ScanError)"

fun checkValid_loop :: "scanner \<Rightarrow> string \<Rightarrow> bool" where
  "checkValid_loop s [] = (scanner_eof s \<noteq> ScanError)"
| "checkValid_loop s (c # cs) =
     (case scanner_step s c of
        (code, s') \<Rightarrow> if code = ScanError then False else checkValid_loop s' cs)"

definition Valid :: "string \<Rightarrow> bool" where
  "Valid body = checkValid_loop scanner_reset body"

text \<open>
  \<open>quoteChar\<close> on a printable ASCII byte other than the two quotes and the backslash: the
  byte between single quotes (a stand-in for the parameter on concrete inputs).
\<close>

definition quote_printable :: "char \<Rightarrow> string" where
  "quote_printable c = [CHR 0x27, c, CHR 0x27]"

text \<open>
  Two bodies: a request to show one application, which decodes to \<open>show_request 1\<close>, and
  the same bytes followed by text that makes the body invalid JSON.
\<close>

definition quoted :: "string \<Rightarrow> string" where
  "quoted s = dquote # s @ [dquote]"

definition show_body :: string where
  "show_body =
     ''{'' @ quoted ''urls'' @ '':['' @ quoted ''https://app.local'' @ ''],'' @
     quoted ''action'' @ '':'' @ quoted ''show'' @ '','' @
     quoted ''category'' @ '':'' @ quoted ''Media'' @ ''}''"

definition trailing_text_body :: string where
  "trailing_text_body = show_body @ ''}}} not json''"

text \<open>
  For the proofs about the scanner: a scanner in the middle of a value (the top-level
  value is not complete, no error is recorded), and what a step from such a scanner
  gives on the byte \<open>b\<close>.
\<close>

definition scanning :: "scanner \<Rightarrow> bool" where
  "scanning s \<longleftrightarrow>
     \<not> endTop s \<and> scan_err s = None \<and> scan_step s \<noteq> StateEndTop \<and> scan_step s \<noteq> StateError"

definition step_ok :: "char \<Rightarrow> scan_code \<times> scanner \<Rightarrow> bool" where
  "step_ok b r \<longleftrightarrow>
     (case r of
        (code, s') \<Rightarrow>
          (code = ScanError \<and> scan_err s' \<noteq> None \<and> \<not> endTop s') \<or>
          code = ScanEnd \<or>
          ((code = ScanEndObject \<or> code = ScanEndArray) \<and> \<not> isSpace b \<and>
           (fst (stateEndValue s' (CHR '' '')) = ScanEnd \<or>
            snd (stateEndValue s' (CHR '' '')) = s' \<and> scanning s')) \<or>
          (code \<noteq> ScanError \<and> code \<noteq> ScanEnd \<and> code \<noteq> ScanEndObject \<and>
           code \<noteq> ScanEndArray \<and> scanning s'))"

section \<open>Discovery loop supervisor (StartNginxDiscoveryLoop, StopNginxDiscoveryLoop and the Unraid pair)\<close>


datatype worker = Spawned | InSelect "nat option"

record source =
  Enabled :: bool
  Stop :: "nat option"
  Wg :: nat
  snapshot :: "App list"
  chans :: nat
  closed_chans :: "nat set"
  workers :: "worker list"
  logged :: "string list"
  cycles :: nat
  pending :: nat
  finishing :: nat
  faulted :: bool

definition init_source :: source where
  "init_source =
     \<lparr>Enabled = False, Stop = None, Wg = 0, snapshot = [], chans = 0, closed_chans = {},
      workers = [], logged = [], cycles = 0, pending = 0, finishing = 0, faulted = False\<rparr>"

definition SetApps :: "App list \<Rightarrow> source \<Rightarrow> source" where
  "SetApps apps s = s\<lparr>snapshot := apps\<rparr>"


text \<open>
  What the body of a collector (\<open>DiscoverNginxApps\<close>, \<open>DiscoverUnraidApps\<close>) does in
  one cycle once it has found the source enabled: it panics (\<open>Fault\<close>), it returns
  without a result on one of its error paths (\<open>NoResult\<close>), or it stores a list with
  \<open>SetApps\<close> (\<open>Result\<close>). The only statement after \<open>SetApps\<close> is a log line, so a
  fault comes before \<open>SetApps\<close>. \<open>Fault r stack\<close> carries the panic value as \<open>%v\<close>
  prints it and the stack trace that \<open>debug.Stack()\<close> returns in the deferred function.
\<close>

datatype collect = Fault string string | NoResult | Result "App list"






















section \<open>The Unraid collector (queryUnraidContainers, DiscoverUnraidApps)\<close>

text \<open>
  More of Go's \<open>strings\<close> package, on bytes. \<open>Split\<close> is modelled for a non-empty
  separator (the program passes the literals \<open>server {\<close> and a dot); its last equation
  is never reached from the program.
\<close>

definition HasPrefix :: "string \<Rightarrow> string \<Rightarrow> bool" where
  "HasPrefix s p = prefix p s"

definition HasSuffix :: "string \<Rightarrow> string \<Rightarrow> bool" where
  "HasSuffix s suf = suffix suf s"

definition Contains :: "string \<Rightarrow> string \<Rightarrow> bool" where
  "Contains s sub = (Index s sub \<noteq> None)"

definition TrimPrefix :: "string \<Rightarrow> string \<Rightarrow> string" where
  "TrimPrefix s p = (if HasPrefix s p then drop (length p) s else s)"

definition TrimSuffix :: "string \<Rightarrow> string \<Rightarrow> string" where
  "TrimSuffix s suf = (if HasSuffix s suf then take (length s - length suf) s else s)"

function Split :: "string \<Rightarrow> string \<Rightarrow> string list" where
  "Split s (c # cs) =
     (case Index s (c # cs) of
        None \<Rightarrow> [s]
      | Some i \<Rightarrow> take i s # Split (drop (i + length (c # cs)) s) (c # cs))"
| "Split s [] = [s]"
  by pat_completeness auto
termination
proof (relation "measure (\<lambda>(s, sep). length s)", goal_cases)
  case 1
  then show ?case by simp
next
  case (2 s c cs i)
  from Index_Some_D[OF 2] have "i + length (c # cs) \<le> length s" by simp
  then show ?case by simp
qed

text \<open>
  \<open>models.UnraidContainer\<close> with the fields the collector reads (the tests build it
  with \<open>ID\<close>, \<open>Names\<close>, \<open>State\<close>, \<open>Labels\<close>, \<open>Image\<close>); a missing label reads as the
  empty string. \<open>models.UnraidGraphQLResponse\<close> is reduced to what the collector
  reads of it: the messages of \<open>Errors\<close> and \<open>Data.Docker.Containers\<close>.
\<close>

record UnraidContainer =
  ID :: string
  Names :: "string list"
  State :: string
  Labels :: "string \<rightharpoonup> string"
  Image :: string

record UnraidGraphQLResponse =
  Errors :: "string list"
  Containers :: "UnraidContainer list"

definition label :: "UnraidContainer \<Rightarrow> string \<Rightarrow> string" where
  "label container key = (case Labels container key of None \<Rightarrow> '''' | Some v \<Rightarrow> v)"

text \<open>
  The outcome of building and sending the request: an error of \<open>json.Marshal\<close>,
  \<open>http.NewRequest\<close> or \<open>client.Do\<close>, or the status code with the decoded body
  (\<open>Inl\<close> the decoder's error).
\<close>

datatype http_reply =
    RequestError string
  | Reply nat "string + UnraidGraphQLResponse"

text \<open>
  The library functions the Unraid collector calls, as parameters:
  \<open>urlvalidation.ValidateDiscoveryURL\<close> (\<open>validURL\<close>), \<open>url.Parse\<close> with
  \<open>Hostname\<close> (\<open>parse_hostname\<close>), \<open>cases.Title(language.English).String\<close>
  (\<open>title\<close>), \<open>strings.ToUpper\<close> (\<open>toUpper\<close>).
\<close>

record unraid_env =
  validURL :: "string \<Rightarrow> bool"
  parse_hostname :: "string \<Rightarrow> string option"
  title :: "string \<Rightarrow> string"
  toUpper :: "string \<Rightarrow> string"

definition processUnraidIconURL :: "string \<Rightarrow> string \<Rightarrow> string" where
  "processUnraidIconURL iconURL unraidURL =
     (if iconURL = '''' then ''''
      else if HasPrefix iconURL ''http://'' \<or> HasPrefix iconURL ''https://'' then iconURL
      else if HasPrefix iconURL ''/'' then TrimSuffix unraidURL ''/'' @ iconURL
      else '''')"

text \<open>\<open>strings.NewReplacer("-", " ", "_", " ").Replace\<close>.\<close>

definition dash_underscore_to_space :: "string \<Rightarrow> string" where
  "dash_underscore_to_space s =
     map (\<lambda>c. if c = CHR ''-'' \<or> c = CHR ''_'' then CHR '' '' else c) s"

text \<open>The body of the loop over the containers: the application of one container, if any.\<close>

definition container_app :: "unraid_env \<Rightarrow> string \<Rightarrow> UnraidContainer \<Rightarrow> App option" where
  "container_app env unraidURL container =
     (let webUIRaw = label container ''net.unraid.docker.webui'' in
      if webUIRaw = '''' then None
      else
        (let name = (case Names container of
                       [] \<Rightarrow> ''Unknown''
                     | n # _ \<Rightarrow> title env (dash_underscore_to_space (TrimPrefix n ''/'')));
             status = (if toUpper env (State container) = ''RUNNING'' then ''online''
                       else ''offline'');
             webUIURL = processUnraidWebUIURL (parse_hostname env) webUIRaw unraidURL;
             icon = processUnraidIconURL (label container ''net.unraid.docker.icon'') unraidURL
         in Some \<lparr>Name = name, URL = webUIURL, Icon = icon,
                   Description = ''Discovered via Unraid (image: '' @ Image container @ '')'',
                   Status = status\<rparr>))"

fun containers_loop :: "unraid_env \<Rightarrow> string \<Rightarrow> UnraidContainer list \<Rightarrow> App list \<Rightarrow> App list" where
  "containers_loop env unraidURL [] apps = apps"
| "containers_loop env unraidURL (container # containers) apps =
     (case container_app env unraidURL container of
        None \<Rightarrow> containers_loop env unraidURL containers apps
      | Some a \<Rightarrow> containers_loop env unraidURL containers (apps @ [a]))"

text \<open>\<open>queryUnraidContainers\<close>: \<open>Inl\<close> is the returned error.\<close>

definition queryUnraidContainers :: "unraid_env \<Rightarrow> http_reply \<Rightarrow> string \<Rightarrow> string + App list" where
  "queryUnraidContainers env reply unraidURL =
     (if \<not> validURL env unraidURL then Inl ''Unraid SSRF protection''
      else
        (case reply of
           RequestError err \<Rightarrow> Inl (''request failed: '' @ err)
         | Reply statusCode body \<Rightarrow>
             if statusCode = 401 \<or> statusCode = 403 then Inl ''authentication failed''
             else if statusCode \<noteq> 200 then Inl ''API returned status''
             else
               (case body of
                  Inl err \<Rightarrow> Inl (''failed to decode response: '' @ err)
                | Inr gqlResp \<Rightarrow>
                    if length (Errors gqlResp) > 0 then
                      Inl (''GraphQL error: '' @ hd (Errors gqlResp))
                    else Inr (containers_loop env unraidURL (Containers gqlResp) []))))"

text \<open>
  \<open>DiscoverUnraidApps\<close> after its check of the enabled flag (which \<open>step\<close> makes): what
  the cycle does with the configured URL and key.
\<close>

definition DiscoverUnraidApps_body ::
    "unraid_env \<Rightarrow> http_reply \<Rightarrow> string \<Rightarrow> string \<Rightarrow> collect" where
  "DiscoverUnraidApps_body env reply unraidURL apiKey =
     (if unraidURL = '''' \<or> apiKey = '''' then NoResult
      else
        (case queryUnraidContainers env reply unraidURL of
           Inl err \<Rightarrow> NoResult
         | Inr apps \<Rightarrow> Result apps))"

text \<open>
  An Unraid server that answers with two containers whose WebUI labels are the same
  template, and library functions for ASCII input.
\<close>

definition plain_unraid_env :: unraid_env where
  "plain_unraid_env =
     \<lparr>validURL = (\<lambda>u. True), parse_hostname = plain_url_hostname, title = (\<lambda>s. s),
      toUpper = (\<lambda>s. s)\<rparr>"

definition twin_containers :: "UnraidContainer list" where
  "twin_containers =
     [\<lparr>ID = ''a1'', Names = [''/plex''], State = ''RUNNING'',
       Labels = [''net.unraid.docker.webui'' \<mapsto> ''http://[IP]:32400/web''],
       Image = ''plexinc/pms-docker''\<rparr>,
      \<lparr>ID = ''b2'', Names = [''/plex-test''], State = ''EXITED'',
       Labels = [''net.unraid.docker.webui'' \<mapsto> ''http://[IP]:32400/web''],
       Image = ''plexinc/pms-docker''\<rparr>]"

definition twin_reply :: http_reply where
  "twin_reply = Reply 200 (Inr \<lparr>Errors = [], Containers = twin_containers\<rparr>)"

section \<open>The Nginx configuration-file collector (DiscoverNginxApps)\<close>

text \<open>
  What the collector takes from Go's libraries and from the file system, as
  parameters, next to those of \<open>resolveIncludes\<close> (\<open>inc\<close>; its \<open>readFile\<close> is
  \<open>os.ReadFile\<close>, its \<open>trimSpace\<close> is \<open>strings.TrimSpace\<close>):
  \<^item> \<open>stripComments\<close>: \<open>commentRe.ReplaceAllString(content, "")\<close>;
  \<^item> \<open>serverName_submatch\<close>, \<open>proxyPass_submatch\<close>: the first group of
    \<open>FindStringSubmatch\<close>, \<open>None\<close> when there is no match;
  \<^item> \<open>listen_submatches\<close>: the two groups of every match of \<open>listenRe\<close>;
  \<^item> \<open>location_matches\<close>: for every match of \<open>locationRe\<close>, the captured path
    \<open>serverBlock[locMatch[2]:locMatch[3]]\<close> and the text after the match
    \<open>serverBlock[locMatch[1]:]\<close>;
  \<^item> \<open>Fields\<close>, \<open>toLower\<close>: \<open>strings.Fields\<close>, \<open>strings.ToLower\<close>;
    \<open>titleCase\<close>: \<open>titleCaser.String\<close>;
  \<^item> \<open>stat_isDir\<close>: \<open>os.Stat\<close> and \<open>IsDir\<close>, \<open>None\<close> on an error; \<open>readDir\<close>:
    the names of \<open>os.ReadDir\<close> with their \<open>IsDir\<close>, \<open>None\<close> on an error;
    \<open>joinPath\<close>: \<open>filepath.Join\<close>.
\<close>

record nginx_env =
  inc :: include_env
  stripComments :: "string \<Rightarrow> string"
  serverName_submatch :: "string \<Rightarrow> string option"
  proxyPass_submatch :: "string \<Rightarrow> string option"
  listen_submatches :: "string \<Rightarrow> (string \<times> string) list"
  location_matches :: "string \<Rightarrow> (string \<times> string) list"
  Fields :: "string \<Rightarrow> string list"
  toLower :: "string \<Rightarrow> string"
  titleCase :: "string \<Rightarrow> string"
  stat_isDir :: "string \<Rightarrow> bool option"
  readDir :: "string \<Rightarrow> (string \<times> bool) list option"
  joinPath :: "string \<Rightarrow> string \<Rightarrow> string"

definition skipExtensions :: "string list" where
  "skipExtensions =
     [''.bak'', ''.dpkg-old'', ''.dpkg-new'', ''.dpkg-dist'', ''.swp'', ''.swo'', ''.tmp'',
      ''.orig'']"

definition skipLocationPaths :: "string list" where
  "skipLocationPaths =
     [''/'', ''/.well-known'', ''/api'', ''/static'', ''/assets'', ''/public'', ''/media'',
      ''/uploads'', ''/favicon.ico'', ''/robots.txt'', ''/health'', ''/healthz'', ''/metrics'',
      ''/stub_status'', ''/nginx_status'', ''/server-status'']"

definition skipLocationPatterns :: "string list" where
  "skipLocationPatterns =
     [''/authelia/'', ''/authentik/'', ''/api/authz'', ''/.oauth/'', ''/oauth2/'',
      ''/socket.io/'', ''/sockjs/'', ''/websocket/'', ''/api/'', ''/control/'', ''/download/'',
      ''/downloads/'']"

definition skipLocationSuffixes :: "string list" where
  "skipLocationSuffixes =
     [''/api'', ''/ws'', ''/wss'', ''/feed'', ''/rss'', ''/atom'', ''/auth'', ''/login'',
      ''/logout'', ''/callback'', ''/signin'', ''/signout'', ''/opds'', ''/kobo'']"

text \<open>
  \<open>strings.ContainsAny(path, "()[]{}*+?^$|\\")\<close>: the last character of the set is the
  backslash.
\<close>

definition hasRegexMetachars :: "string \<Rightarrow> bool" where
  "hasRegexMetachars path =
     list_ex (\<lambda>c. c \<in> set (''()[]{}*+?^$|'' @ [CHR 0x5C])) path"

definition shouldSkipLocation :: "(string \<Rightarrow> string) \<Rightarrow> string \<Rightarrow> bool" where
  "shouldSkipLocation lower locPath =
     (if hasRegexMetachars locPath then True
      else
        (let cleanPath = TrimRight locPath ''/'';
             cleanPath = (if cleanPath = '''' then ''/'' else cleanPath);
             lowerPath = lower locPath
         in if cleanPath \<in> set skipLocationPaths then True
            else if list_ex (\<lambda>pattern. Contains lowerPath pattern) skipLocationPatterns then True
            else if list_ex (\<lambda>suf. HasSuffix cleanPath suf) skipLocationSuffixes then True
            else False))"

text \<open>
  \<open>filepath.Ext\<close>: the suffix of the last path element that begins at its last dot,
  empty when it has no dot.
\<close>

definition Ext :: "string \<Rightarrow> string" where
  "Ext path =
     (let last_elem_rev = takeWhile (\<lambda>c. c \<noteq> CHR ''/'') (rev path)
      in if CHR ''.'' \<in> set last_elem_rev
         then CHR ''.'' # rev (takeWhile (\<lambda>c. c \<noteq> CHR ''.'') last_elem_rev)
         else '''')"

definition isNginxConfigFile :: "string \<Rightarrow> bool" where
  "isNginxConfigFile name =
     (if HasPrefix name ''.'' then False
      else
        (let ext = Ext name
         in if ext \<noteq> '''' \<and> ext \<in> set skipExtensions then False
            else if list_ex (\<lambda>suf. HasSuffix name suf) skipExtensions then False
            else True))"

text \<open>The loop that picks \<open>validHost\<close> among the names of \<open>server_name\<close>.\<close>

fun pick_validHost :: "(string \<Rightarrow> string) \<Rightarrow> string list \<Rightarrow> string" where
  "pick_validHost trim [] = ''''"
| "pick_validHost trim (n # serverNames) =
     (let name = trim n
      in if name = ''_'' \<or> name = ''localhost'' \<or> name = ''default_server'' \<or> name = ''''
         then pick_validHost trim serverNames
         else name)"

text \<open>
  The state of one run: \<open>seenURLs\<close> (a Go \<open>map[string]bool\<close> whose entries are all
  \<open>true\<close>, so a set) and \<open>apps\<close>. The body of the loop over the location matches
  also carries \<open>foundLocationApps\<close>.
\<close>

definition location_step ::
    "nginx_env \<Rightarrow> string \<Rightarrow> string \<Rightarrow> string set \<times> App list \<times> bool \<Rightarrow> string \<times> string
      \<Rightarrow> string set \<times> App list \<times> bool" where
  "location_step env protocol validHost st loc =
     (case st of (seenURLs, apps, foundLocationApps) \<Rightarrow>
      case loc of (locPath, afterBrace) \<Rightarrow>
        if shouldSkipLocation (toLower env) locPath then st
        else
          (let locBlock = fst (extractBlock afterBrace) in
           case proxyPass_submatch env locBlock of
             None \<Rightarrow> st
           | Some g \<Rightarrow>
               (let upstream = trimSpace (inc env) g;
                    appURL = protocol @ ''://'' @ validHost @ locPath
                in if appURL \<in> seenURLs then st
                   else
                     (let seenURLs = insert appURL seenURLs;
                          pathName = TrimLeft locPath ''/'';
                          pathName = TrimRight pathName ''/'';
                          pathName = (case Index pathName ''/'' of
                                        None \<Rightarrow> pathName
                                      | Some idx \<Rightarrow> if idx > 0 then take idx pathName
                                                    else pathName);
                          appName = titleCase env (ReplaceAll pathName ''-'' '' '')
                      in if appName = '''' then (seenURLs, apps, foundLocationApps)
                         else
                           (seenURLs,
                            apps @ [\<lparr>Name = appName, URL = appURL, Icon = '''',
                                     Description =
                                       ''Discovered via Nginx (proxied to '' @ upstream @ '')'',
                                     Status = ''online''\<rparr>],
                            True)))))"

text \<open>
  The fallback of a server block in which no location gave an application: the block
  itself, through its server-level \<open>proxy_pass\<close>.
\<close>

definition fallback_step ::
    "nginx_env \<Rightarrow> string \<Rightarrow> string \<Rightarrow> string \<Rightarrow> string set \<times> App list
      \<Rightarrow> string set \<times> App list" where
  "fallback_step env protocol validHost serverBlock st =
     (case st of (seenURLs, apps) \<Rightarrow>
      case proxyPass_submatch env serverBlock of
        None \<Rightarrow> st
      | Some p \<Rightarrow>
          (let upstream = trimSpace (inc env) p;
               appURL = protocol @ ''://'' @ validHost
           in if appURL \<in> seenURLs then st
              else
                (let seenURLs = insert appURL seenURLs;
                     name = (case Split validHost ''.'' of
                               [] \<Rightarrow> validHost
                             | part # _ \<Rightarrow> titleCase env (ReplaceAll part ''-'' '' ''))
                 in (seenURLs,
                     apps @ [\<lparr>Name = name, URL = appURL, Icon = '''',
                              Description =
                                ''Discovered via Nginx (proxied to '' @ upstream @ '')'',
                              Status = ''online''\<rparr>]))))"

text \<open>The body of the loop over the server blocks (for the blocks after the first).\<close>

definition server_block_step ::
    "nginx_env \<Rightarrow> string set \<times> App list \<Rightarrow> string \<Rightarrow> string set \<times> App list" where
  "server_block_step env st block =
     (let serverBlock = fst (extractBlock block) in
      case serverName_submatch env serverBlock of
        None \<Rightarrow> st
      | Some g \<Rightarrow>
          (let serverNames = Fields env g in
           if length serverNames = 0 then st
           else
             (let validHost = pick_validHost (trimSpace (inc env)) serverNames in
              if validHost = '''' then st
              else
                (let protocol =
                       (if list_ex (\<lambda>(port, ssl). port = ''443'' \<or> ssl \<noteq> '''')
                             (listen_submatches env serverBlock)
                        then ''https'' else ''http'')
                 in case foldl (location_step env protocol validHost)
                           (fst st, snd st, False) (location_matches env serverBlock) of
                      (seenURLs, apps, foundLocationApps) \<Rightarrow>
                        if \<not> foundLocationApps then
                          fallback_step env protocol validHost serverBlock (seenURLs, apps)
                        else (seenURLs, apps)))))"

text \<open>The closure \<open>processConfigFile\<close>.\<close>

definition processConfigFile ::
    "nginx_env \<Rightarrow> string set \<times> App list \<Rightarrow> string \<Rightarrow> string set \<times> App list" where
  "processConfigFile env st filePath =
     (case readFile (inc env) filePath of
        None \<Rightarrow> st
      | Some data \<Rightarrow>
          (let configContent = resolveIncludes (inc env) data 0;
               configContent = stripComments env configContent;
               blocks = Split configContent ''server {''
           in foldl (server_block_step env) st (tl blocks)))"

text \<open>
  \<open>DiscoverNginxApps\<close> after its check of the enabled flag, up to the call of
  \<open>dedupeAppsByBasePath\<close>: \<open>None\<close> when it returns early.
\<close>

definition nginx_collect :: "nginx_env \<Rightarrow> string \<Rightarrow> (string set \<times> App list) option" where
  "nginx_collect env configPath =
     (let nginxConfigPath = (if configPath = '''' then ''/etc/nginx/conf.d'' else configPath) in
      case stat_isDir env nginxConfigPath of
        None \<Rightarrow> None
      | Some isDir \<Rightarrow>
          if \<not> isDir then None
          else
            (case readDir env nginxConfigPath of
               None \<Rightarrow> None
             | Some entries \<Rightarrow>
                 Some (foldl (\<lambda>st entry.
                         case entry of (name, entryIsDir) \<Rightarrow>
                           if entryIsDir then st
                           else if isNginxConfigFile name then
                             processConfigFile env st (joinPath env nginxConfigPath name)
                           else st)
                       ({}, []) entries)))"

text \<open>
  The whole cycle: the list handed to \<open>SetApps\<close>, if any. \<open>sortSlice\<close> and \<open>order\<close>
  are the parameters of \<open>dedupeAppsByBasePath\<close>.
\<close>

definition DiscoverNginxApps_body ::
    "nginx_env \<Rightarrow> (App list \<Rightarrow> App list) \<Rightarrow> string list \<Rightarrow> string \<Rightarrow> collect" where
  "DiscoverNginxApps_body env sortSlice order configPath =
     (case nginx_collect env configPath of
        None \<Rightarrow> NoResult
      | Some (seenURLs, apps) \<Rightarrow> Result (dedupeAppsByBasePath sortSlice order apps))"

text \<open>
  The invariant of \<open>seenURLs\<close> and \<open>apps\<close> during a run: the URLs of \<open>apps\<close> are
  pairwise distinct and all in \<open>seenURLs\<close>.
\<close>

definition seen_inv :: "string set \<times> App list \<Rightarrow> bool" where
  "seen_inv st \<longleftrightarrow> distinct (map URL (snd st)) \<and> URL ` set (snd st) \<subseteq> fst st"

text \<open>
  A small configuration directory and stand-ins for the library functions on it: one
  file \<open>default.conf\<close> with two server blocks \<open>A\<close> and \<open>B\<close> for \<open>media.lan\<close>; block
  \<open>A\<close> has three proxied locations, \<open>/lidarr\<close>, \<open>/lidarr/\<close> and \<open>/lidarr\<close> again,
  block \<open>B\<close> the location \<open>/lidarr\<close> once more.
\<close>

definition tiny_include_env :: include_env where
  "tiny_include_env = \<lparr>
     re_segments = (\<lambda>c. [Text c]),
     re_submatch = (\<lambda>m. None),
     trimSpace = (\<lambda>s. s),
     validPath = (\<lambda>p. True),
     glob = (\<lambda>p. None),
     evalSymlinks = Some,
     stat_size = (\<lambda>p. Some 20),
     readFile = (\<lambda>p. if p = ''/etc/nginx/conf.d/default.conf''
                       then Some ''server {A}server {B}'' else None) \<rparr>"

definition tiny_nginx_env :: nginx_env where
  "tiny_nginx_env = \<lparr>
     inc = tiny_include_env,
     stripComments = (\<lambda>s. s),
     serverName_submatch = (\<lambda>b. Some ''media.lan''),
     proxyPass_submatch = (\<lambda>b. if b = ''A'' \<or> b = ''B'' then None else Some ''http://10.0.0.2:8686''),
     listen_submatches = (\<lambda>b. [(''80'', '''')]),
     location_matches = (\<lambda>b. if b = ''A''
                               then [(''/lidarr'', ''X}''), (''/lidarr/'', ''Y}''), (''/lidarr'', ''Z}'')]
                               else [(''/lidarr'', ''X}'')]),
     Fields = (\<lambda>g. [g]),
     toLower = (\<lambda>s. s),
     titleCase = (\<lambda>s. s),
     stat_isDir = (\<lambda>p. Some True),
     readDir = (\<lambda>p. Some [(''.hidden'', False), (''default.conf'', False),
                              (''old.bak'', False), (''sites'', True)]),
     joinPath = (\<lambda>dir name. dir @ ''/'' @ name) \<rparr>"

definition lidarr_app :: "string \<Rightarrow> App" where
  "lidarr_app url =
     \<lparr>Name = ''lidarr'', URL = url, Icon = '''',
      Description = ''Discovered via Nginx (proxied to http://10.0.0.2:8686)'',
      Status = ''online''\<rparr>"

chapter \<open>Verified properties\<close>

section \<open>Brace extraction\<close>

lemma in_comment_0: "\<not> in_comment s 0"
  by (simp add: in_comment_def)

lemma in_comment_Suc:
  "in_comment s (Suc i) \<longleftrightarrow> s ! i \<noteq> newline \<and> (s ! i = CHR ''#'' \<or> in_comment s i)"
proof
  assume "in_comment s (Suc i)"
  then obtain j where j: "j < Suc i" "s ! j = CHR ''#''"
    and nl: "\<forall>k. j \<le> k \<and> k < Suc i \<longrightarrow> s ! k \<noteq> newline"
    unfolding in_comment_def by blast
  from nl j have a: "s ! i \<noteq> newline" by simp
  show "s ! i \<noteq> newline \<and> (s ! i = CHR ''#'' \<or> in_comment s i)"
  proof (cases "j = i")
    case True
    with j a show ?thesis by simp
  next
    case False
    with j have "j < i" by simp
    moreover from nl have "\<forall>k. j \<le> k \<and> k < i \<longrightarrow> s ! k \<noteq> newline" by simp
    ultimately have "in_comment s i" using j(2) unfolding in_comment_def by blast
    with a show ?thesis by simp
  qed
next
  assume h: "s ! i \<noteq> newline \<and> (s ! i = CHR ''#'' \<or> in_comment s i)"
  show "in_comment s (Suc i)"
  proof (cases "s ! i = CHR ''#''")
    case True
    then have "i < Suc i \<and> s ! i = CHR ''#'' \<and> (\<forall>k. i \<le> k \<and> k < Suc i \<longrightarrow> s ! k \<noteq> newline)"
      by (auto simp: less_Suc_eq_le)
    then show ?thesis unfolding in_comment_def by blast
  next
    case False
    with h obtain j where j: "j < i" "s ! j = CHR ''#''"
      and nl: "\<forall>k. j \<le> k \<and> k < i \<longrightarrow> s ! k \<noteq> newline"
      unfolding in_comment_def by blast
    from nl h have "\<forall>k. j \<le> k \<and> k < Suc i \<longrightarrow> s ! k \<noteq> newline"
      by (auto simp: less_Suc_eq)
    with j show ?thesis unfolding in_comment_def by (meson less_Suc_eq)
  qed
qed

lemma depth_after_0: "depth_after s 0 = 1"
  by (simp add: depth_after_def)

lemma depth_after_Suc: "depth_after s (Suc k) = depth_after s k + brace_delta s k"
  by (simp add: depth_after_def)

lemma extractBlock_loop_step:
  assumes "s ! n = c"
  shows "extractBlock_loop s (c # cs) (depth_after s n) (in_comment s n) n =
    (if brace_delta s n = - 1 \<and> depth_after s n = 1 then (take n s, int n)
     else extractBlock_loop s cs (depth_after s (Suc n)) (in_comment s (Suc n)) (Suc n))"
proof (cases "c = newline")
  case True
  then show ?thesis using assms
    by (simp add: depth_after_Suc in_comment_Suc brace_delta_def)
next
  case nl: False
  show ?thesis
  proof (cases "in_comment s n")
    case True
    then show ?thesis using assms nl
      by (simp add: depth_after_Suc in_comment_Suc brace_delta_def)
  next
    case ic: False
    consider "c = CHR ''#''" | "c = CHR ''{''" | "c = CHR ''}''"
      | "c \<noteq> CHR ''#''" "c \<noteq> CHR ''{''" "c \<noteq> CHR ''}''" by blast
    then show ?thesis
    proof cases
      case 1
      then show ?thesis using assms nl ic
        by (simp add: depth_after_Suc in_comment_Suc brace_delta_def)
    next
      case 2
      then show ?thesis using assms nl ic
        by (simp add: depth_after_Suc in_comment_Suc brace_delta_def)
    next
      case 3
      then show ?thesis using assms nl ic
        by (simp add: depth_after_Suc in_comment_Suc brace_delta_def)
    next
      case 4
      then show ?thesis using assms nl ic
        by (simp add: depth_after_Suc in_comment_Suc brace_delta_def)
    qed
  qed
qed

text \<open>
  The loop invariant: entering the loop at offset \<open>length pre\<close> with the depth and the
  comment flag of the scan so far, and the depth never 0 up to there.
\<close>

lemma extractBlock_loop_closes:
  assumes "s = pre @ cs" "closes_at s i" "length pre \<le> i"
  shows "extractBlock_loop s cs (depth_after s (length pre)) (in_comment s (length pre)) (length pre)
         = (take i s, int i)"
  using assms
proof (induction cs arbitrary: pre)
  case Nil
  then show ?case by (simp add: closes_at_def)
next
  case (Cons c cs)
  let ?n = "length pre"
  have c: "s ! ?n = c" using Cons.prems(1) by simp
  have s': "s = (pre @ [c]) @ cs" using Cons.prems(1) by simp
  have nz: "depth_after s ?n \<noteq> 0" using Cons.prems(2,3) by (simp add: closes_at_def)
  show ?case
  proof (cases "?n = i")
    case True
    have z: "depth_after s ?n + brace_delta s ?n = 0"
      using Cons.prems(2) True by (simp add: closes_at_def depth_after_Suc)
    with nz have d: "brace_delta s ?n \<noteq> 0" by auto
    have "brace_delta s ?n = 1 \<or> brace_delta s ?n = - 1 \<or> brace_delta s ?n = 0"
      by (simp add: brace_delta_def)
    moreover have "depth_after s ?n \<noteq> - 1"
    proof
      assume m: "depth_after s ?n = - 1"
      have "\<exists>k\<le>?n. depth_after s k = 0"
      proof (rule ccontr)
        assume no: "\<not> (\<exists>k\<le>?n. depth_after s k = 0)"
        have "k \<le> ?n \<Longrightarrow> depth_after s k \<ge> 1" for k
        proof (induction k)
          case 0
          then show ?case by (simp add: depth_after_0)
        next
          case (Suc k)
          then have "depth_after s k \<ge> 1" by simp
          moreover have "brace_delta s k \<ge> - 1" by (simp add: brace_delta_def)
          moreover have "depth_after s (Suc k) \<noteq> 0" using no Suc.prems by blast
          ultimately show ?case by (simp add: depth_after_Suc)
        qed
        from this[of ?n] m show False by simp
      qed
      with Cons.prems(2) True show False by (auto simp: closes_at_def)
    qed
    ultimately have dm: "brace_delta s ?n = - 1" and d1: "depth_after s ?n = 1"
      using z d by auto
    show ?thesis unfolding extractBlock_loop_step[OF c] using dm d1 True by simp
  next
    case False
    with Cons.prems(3) have lt: "Suc ?n \<le> i" by simp
    have IH: "extractBlock_loop s cs (depth_after s (Suc ?n)) (in_comment s (Suc ?n)) (Suc ?n)
         = (take i s, int i)"
      using Cons.IH[OF s' Cons.prems(2)] lt by simp
    have nz': "depth_after s (Suc ?n) \<noteq> 0"
      using Cons.prems(2) lt by (simp add: closes_at_def)
    have "\<not> (brace_delta s ?n = - 1 \<and> depth_after s ?n = 1)"
      using nz' by (auto simp: depth_after_Suc)
    then show ?thesis unfolding extractBlock_loop_step[OF c] using IH by auto
  qed
qed

lemma extractBlock_loop_open:
  assumes "s = pre @ cs" "never_closes s"
  shows "extractBlock_loop s cs (depth_after s (length pre)) (in_comment s (length pre)) (length pre)
         = (s, - 1)"
  using assms
proof (induction cs arbitrary: pre)
  case Nil
  then show ?case by simp
next
  case (Cons c cs)
  let ?n = "length pre"
  have c: "s ! ?n = c" using Cons.prems(1) by simp
  have s': "s = (pre @ [c]) @ cs" using Cons.prems(1) by simp
  have IH: "extractBlock_loop s cs (depth_after s (Suc ?n)) (in_comment s (Suc ?n)) (Suc ?n)
         = (s, - 1)"
    using Cons.IH[OF s' Cons.prems(2)] by simp
  have nz': "depth_after s (Suc ?n) \<noteq> 0"
    using Cons.prems by (simp add: never_closes_def)
  have "\<not> (brace_delta s ?n = - 1 \<and> depth_after s ?n = 1)"
    using nz' by (auto simp: depth_after_Suc)
  then show ?case unfolding extractBlock_loop_step[OF c] using IH by auto
qed

lemma extractBlock_loop_range:
  "snd (extractBlock_loop s cs b ic i) = - 1 \<or>
   (int i \<le> snd (extractBlock_loop s cs b ic i) \<and>
    snd (extractBlock_loop s cs b ic i) < int (i + length cs))"
proof (induction cs arbitrary: b ic i)
  case Nil
  then show ?case by simp
next
  case (Cons c cs)
  have "snd (extractBlock_loop s cs b' ic' (Suc i)) = - 1 \<or>
   (int i \<le> snd (extractBlock_loop s cs b' ic' (Suc i)) \<and>
    snd (extractBlock_loop s cs b' ic' (Suc i)) < int (i + length (c # cs)))" for b' ic'
    using Cons.IH[of b' ic' "Suc i"] by auto
  then show ?case by simp
qed


lemma closes_or_open:
  "(\<exists>i. closes_at s i) \<or> never_closes s"
proof (cases "\<exists>i<length s. depth_after s (Suc i) = 0")
  case False
  then show ?thesis by (auto simp: never_closes_def)
next
  case True
  define P where "P = (\<lambda>i. i < length s \<and> depth_after s (Suc i) = 0)"
  from True have ex: "\<exists>i. P i" by (simp add: P_def)
  define m where "m = (LEAST i. P i)"
  have Pm: "P m" unfolding m_def using ex by (metis LeastI)
  have least: "\<And>j. P j \<Longrightarrow> m \<le> j" unfolding m_def by (rule Least_le)
  have "depth_after s k \<noteq> 0" if "k \<le> m" for k
  proof (cases k)
    case 0
    then show ?thesis by (simp add: depth_after_0)
  next
    case (Suc k')
    with that have "k' < m" by simp
    then have "\<not> P k'" using least by fastforce
    moreover have "k' < length s" using \<open>k' < m\<close> Pm by (simp add: P_def)
    ultimately show ?thesis using Suc by (simp add: P_def)
  qed
  with Pm have "closes_at s m" by (simp add: closes_at_def P_def)
  then show ?thesis by blast
qed

lemma closes_brace:
  assumes "closes_at s i"
  shows "s ! i = CHR ''}'' \<and> \<not> in_comment s i"
proof -
  have a: "depth_after s i + brace_delta s i = 0" "depth_after s i \<noteq> 0"
    using assms by (simp_all add: closes_at_def depth_after_Suc)
  then have "brace_delta s i \<noteq> 0" by auto
  have "k \<le> i \<Longrightarrow> depth_after s k \<ge> 1" for k
  proof (induction k)
    case 0
    then show ?case by (simp add: depth_after_0)
  next
    case (Suc k)
    then have "depth_after s k \<ge> 1" by simp
    moreover have "brace_delta s k \<ge> - 1" by (simp add: brace_delta_def)
    moreover have "depth_after s (Suc k) \<noteq> 0" using assms Suc.prems by (simp add: closes_at_def)
    ultimately show ?case by (simp add: depth_after_Suc)
  qed
  from this[of i] a have "brace_delta s i < 0" by simp
  then show ?thesis by (auto simp: brace_delta_def split: if_splits)
qed

text \<open>
  Claim C10. \<open>extractBlock\<close> is total and index-safe. For every input \<open>s\<close>: if the
  nesting depth (started at 1, braces between a \<open>#\<close> and the next newline ignored)
  first returns to 0 at position \<open>i\<close>, the result is the prefix of length \<open>i\<close>
  together with \<open>i\<close>, and the character at \<open>i\<close> is the closing brace; if the depth
  never returns to 0, the result is the whole input together with -1; one of the two
  always is the case; and the returned index is -1 or lies inside the input.
\<close>

theorem extractBlock_total_index_safe:
  "(closes_at s i \<longrightarrow> extractBlock s = (take i s, int i) \<and> s ! i = CHR ''}'') \<and>
   (never_closes s \<longrightarrow> extractBlock s = (s, - 1)) \<and>
   ((\<exists>j. closes_at s j) \<or> never_closes s) \<and>
   (snd (extractBlock s) = - 1 \<or>
    (0 \<le> snd (extractBlock s) \<and> snd (extractBlock s) < int (length s)))"
proof (intro conjI impI)
  assume c: "closes_at s i"
  have "extractBlock_loop s s (depth_after s (length ([]::string)))
     (in_comment s (length ([]::string))) (length ([]::string)) = (take i s, int i)"
    by (rule extractBlock_loop_closes[OF _ c]) simp_all
  then show "extractBlock s = (take i s, int i)"
    by (simp add: extractBlock_def depth_after_0 in_comment_0)
  show "s ! i = CHR ''}''" using closes_brace[OF c] by simp
next
  assume o: "never_closes s"
  have "extractBlock_loop s s (depth_after s (length ([]::string)))
     (in_comment s (length ([]::string))) (length ([]::string)) = (s, - 1)"
    by (rule extractBlock_loop_open[OF _ o]) simp
  then show "extractBlock s = (s, - 1)"
    by (simp add: extractBlock_def depth_after_0 in_comment_0)
next
  show "(\<exists>j. closes_at s j) \<or> never_closes s"
    by (rule closes_or_open)
next
  show "snd (extractBlock s) = - 1 \<or>
    (0 \<le> snd (extractBlock s) \<and> snd (extractBlock s) < int (length s))"
    using extractBlock_loop_range[of s s 1 False 0] by (simp add: extractBlock_def)
qed

lemma closes_at_example: "closes_at (''x{#}'' @ [newline] @ ''y}z}w'') 8"
  by (simp add: closes_at_def depth_after_Suc depth_after_0 in_comment_Suc in_comment_0
      brace_delta_def eval_nat_numeral le_Suc_eq all_conj_distrib)

lemma never_closes_example: "never_closes ''a{b}''"
  by (simp add: never_closes_def depth_after_Suc depth_after_0 in_comment_Suc in_comment_0
      brace_delta_def eval_nat_numeral less_Suc_eq all_conj_distrib)

theorem extractBlock_total_index_safe_witness:
  "closes_at (''x{#}'' @ [newline] @ ''y}z}w'') 8 \<and>
   extractBlock (''x{#}'' @ [newline] @ ''y}z}w'') = (''x{#}'' @ [newline] @ ''y}z'', 8) \<and>
   never_closes ''a{b}'' \<and>
   extractBlock ''a{b}'' = (''a{b}'', - 1)"
proof -
  have a: "extractBlock (''x{#}'' @ [newline] @ ''y}z}w'')
           = (take 8 (''x{#}'' @ [newline] @ ''y}z}w''), int 8)"
    using extractBlock_total_index_safe[of "''x{#}'' @ [newline] @ ''y}z}w''" 8]
      closes_at_example by blast
  have b: "extractBlock ''a{b}'' = (''a{b}'', - 1)"
    using extractBlock_total_index_safe[of "''a{b}''" 0] never_closes_example by blast
  have c: "take 8 (''x{#}'' @ [newline] @ ''y}z}w'') = ''x{#}'' @ [newline] @ ''y}z''"
    by simp
  show ?thesis
    using a b c closes_at_example never_closes_example by simp
qed

section \<open>Placeholder substitution\<close>

lemma Index_None_iff: "Index s sub = None \<longleftrightarrow> \<not> sublist sub s"
proof (induction s)
  case Nil
  then show ?case by simp
next
  case (Cons c cs)
  then show ?case by (simp add: sublist_Cons_right)
qed

lemma Index_first:
  "Index s sub = Some i \<Longrightarrow> s = a @ sub @ b \<Longrightarrow> i \<le> length a"
proof (induction s arbitrary: i a)
  case Nil
  then show ?case by (simp split: if_splits)
next
  case (Cons c cs)
  show ?case
  proof (cases "prefix sub (c # cs)")
    case True
    with Cons.prems(1) have "i = 0" by simp
    then show ?thesis by simp
  next
    case False
    with Cons.prems(1) obtain j where j: "Index cs sub = Some j" "i = Suc j" by auto
    have "a \<noteq> []" using False Cons.prems(2) by auto
    then obtain a' where a': "a = c # a'" using Cons.prems(2) by (cases a) auto
    with Cons.prems(2) have "cs = a' @ sub @ b" by simp
    from Cons.IH[OF j(1) this] show ?thesis using j a' by simp
  qed
qed

lemma Index_Some_split:
  assumes "Index s sub = Some i"
  shows "s = take i s @ sub @ drop (i + length sub) s"
proof -
  from Index_Some_D[OF assms] have a: "i + length sub \<le> length s"
    and b: "take (length sub) (drop i s) = sub" by simp_all
  have "drop i s = take (length sub) (drop i s) @ drop (length sub) (drop i s)"
    by (simp only: append_take_drop_id)
  then have "drop i s = sub @ drop (i + length sub) s"
    using b by (simp only: drop_drop add.commute)
  then show ?thesis by (metis append_take_drop_id)
qed

lemma Index_at:
  assumes "\<not> sublist sub (a @ butlast sub)" "sub \<noteq> []"
  shows "Index (a @ sub @ b) sub = Some (length a)"
proof -
  have "sublist sub (a @ sub @ b)" by (simp add: sublist_def) blast
  then obtain i where i: "Index (a @ sub @ b) sub = Some i"
    using Index_None_iff[of "a @ sub @ b" sub] by (cases "Index (a @ sub @ b) sub") auto
  have le: "i \<le> length a" by (rule Index_first[OF i]) simp
  have "i = length a"
  proof (rule ccontr)
    assume "i \<noteq> length a"
    with le have lt: "i < length a" by simp
    from Index_Some_D[OF i] have t: "take (length sub) (drop i (a @ sub @ b)) = sub" by simp
    define k where "k = length a - i"
    have k: "0 < k" "i + k = length a" using lt by (simp_all add: k_def)
    have "sublist sub (a @ butlast sub)"
    proof (cases "length sub \<le> k")
      case True
      then have "take (length sub) (drop i a) = sub" using t k by simp
      then have "a = take i a @ sub @ drop (length sub) (drop i a)"
        by (metis append_take_drop_id)
      then have "sublist sub a" unfolding sublist_def by blast
      then show ?thesis by (simp add: sublist_append)
    next
      case False
      then have "length sub > k" by simp
      have "drop i (a @ butlast sub) = drop i a @ butlast sub" using lt by simp
      moreover have "length (drop i a @ butlast sub) \<ge> length sub"
        using k \<open>length sub > k\<close> by simp
      moreover have "take (length sub) (drop i a @ butlast sub) = take (length sub) (drop i (a @ sub @ b))"
      proof -
        have lk: "length (drop i a) = k" by (simp add: k_def)
        have "take (length sub) (drop i (a @ sub @ b)) = drop i a @ take (length sub - k) (sub @ b)"
          using lt lk \<open>length sub > k\<close> by simp
        moreover have "take (length sub) (drop i a @ butlast sub) = drop i a @ take (length sub - k) (butlast sub)"
          using lk \<open>length sub > k\<close> by simp
        moreover have "take (length sub - k) (sub @ b) = take (length sub - k) (butlast sub)"
          using k \<open>length sub > k\<close> by (simp add: take_butlast)
        ultimately show ?thesis by simp
      qed
      ultimately have "take (length sub) (drop i (a @ butlast sub)) = sub" using t by simp
      then have "a @ butlast sub = take i (a @ butlast sub) @ sub @ drop (length sub) (drop i (a @ butlast sub))"
        by (metis append_take_drop_id)
      then show ?thesis unfolding sublist_def by blast
    qed
    with assms show False by simp
  qed
  with i show ?thesis by simp
qed

lemma Index_char_None: "Index s [c] = None \<longleftrightarrow> c \<notin> set s"
  by (induction s) auto

lemma Index_char_at: "c \<notin> set d \<Longrightarrow> Index (d @ c # b) [c] = Some (length d)"
  by (induction d) auto

lemma ReplaceAll_absent:
  "\<not> sublist old s \<Longrightarrow> ReplaceAll s old new = s"
proof (induction s old new rule: ReplaceAll.induct)
  case (1 c old new)
  then show ?case by simp
next
  case (2 x xs c old new)
  then show ?case by (auto simp: sublist_Cons_right)
next
  case (3 s new)
  then show ?case by simp
qed


lemma IP_no_overlap:
  assumes "\<not> prefix ''[IP]'' (x # xs)"
  shows "\<not> prefix ''[IP]'' (x # xs @ ''[IP]'' @ b)"
proof (cases xs)
  case Nil
  then show ?thesis by simp
next
  case (Cons y ys)
  note xs = this
  show ?thesis
  proof (cases ys)
    case Nil
    with xs show ?thesis by simp
  next
    case (Cons z zs)
    note ys = this
    show ?thesis
    proof (cases zs)
      case Nil
      with xs ys show ?thesis by simp
    next
      case (Cons w ws)
      with xs ys assms show ?thesis by simp
    qed
  qed
qed

lemma ReplaceAll_IP_append_aux:
  "old = ''[IP]'' \<Longrightarrow>
   ReplaceAll (a @ old @ b) old h = ReplaceAll a old h @ h @ ReplaceAll b old h"
proof (induction a old h rule: ReplaceAll.induct)
  case (1 c old new)
  then show ?case by simp
next
  case (2 x xs c old new)
  show ?case
  proof (cases "prefix (c # old) (x # xs)")
    case True
    then have len: "length old \<le> length xs"
      using prefix_length_le[of "c # old" "x # xs"] by simp
    from True have p: "prefix (c # old) (x # xs @ (c # old) @ b)"
      using prefix_prefix[of "c # old" "x # xs" "(c # old) @ b"] by simp
    have d: "drop (length old) (xs @ (c # old) @ b) = drop (length old) xs @ (c # old) @ b"
      using len by simp
    have L: "ReplaceAll ((x # xs) @ (c # old) @ b) (c # old) new
             = new @ ReplaceAll (drop (length old) xs @ (c # old) @ b) (c # old) new"
      using p d by (simp only: append_Cons ReplaceAll.simps if_True)
    have R: "ReplaceAll (x # xs) (c # old) new
             = new @ ReplaceAll (drop (length old) xs) (c # old) new"
      using True by (simp only: ReplaceAll.simps if_True)
    show ?thesis unfolding L R using "2.IH"(1)[OF True "2.prems"] by simp
  next
    case False
    then have np: "\<not> prefix (c # old) (x # xs @ (c # old) @ b)"
      using IP_no_overlap[of x xs b] "2.prems" by simp
    have L: "ReplaceAll ((x # xs) @ (c # old) @ b) (c # old) new
             = x # ReplaceAll (xs @ (c # old) @ b) (c # old) new"
      using np by (simp only: append_Cons ReplaceAll.simps if_False)
    have R: "ReplaceAll (x # xs) (c # old) new = x # ReplaceAll xs (c # old) new"
      using False by (simp only: ReplaceAll.simps if_False)
    show ?thesis unfolding L R using "2.IH"(2)[OF False "2.prems"] by simp
  qed
next
  case (3 s new)
  then show ?case by simp
qed

lemma ReplaceAll_IP_append:
  "ReplaceAll (a @ ''[IP]'' @ b) ''[IP]'' h
   = ReplaceAll a ''[IP]'' h @ h @ ReplaceAll b ''[IP]'' h"
  by (rule ReplaceAll_IP_append_aux) simp

lemma strip_absent:
  "\<not> sublist ''[PORT:'' r \<Longrightarrow> strip_port_placeholders r = r"
  using Index_None_iff[of r "''[PORT:''"] by simp

lemma strip_malformed:
  assumes "\<not> sublist ''[PORT:'' (a @ ''[PORT'')" "CHR '']'' \<notin> set t"
  shows "strip_port_placeholders (a @ ''[PORT:'' @ t) = a @ ''[PORT:'' @ t"
proof -
  have i: "Index (a @ ''[PORT:'' @ t) ''[PORT:'' = Some (length a)"
    using Index_at[of "''[PORT:''" a t] assms(1) by simp
  have "CHR '']'' \<notin> set (''[PORT:'' @ t)" using assms(2) by simp
  then have "Index (''[PORT:'' @ t) '']'' = None" using Index_char_None by blast
  then have n: "Index (drop (length a) (a @ ''[PORT:'' @ t)) '']'' = None" by simp
  show ?thesis
    by (subst strip_port_placeholders.simps) (simp only: i n option.case)
qed

lemma strip_wellformed:
  assumes "\<not> sublist ''[PORT:'' (a @ ''[PORT'')" "CHR '']'' \<notin> set d"
  shows "strip_port_placeholders (a @ ''[PORT:'' @ d @ '']'' @ b)
         = strip_port_placeholders (a @ d @ b)"
proof -
  let ?r = "a @ ''[PORT:'' @ d @ '']'' @ b"
  have i: "Index ?r ''[PORT:'' = Some (length a)"
    using Index_at[of "''[PORT:''" a "d @ '']'' @ b"] assms(1) by simp
  have "CHR '']'' \<notin> set (''[PORT:'' @ d)" using assms(2) by simp
  from Index_char_at[OF this, of b]
  have "Index (''[PORT:'' @ d @ '']'' @ b) '']'' = Some (6 + length d)" by simp
  then have e: "Index (drop (length a) ?r) '']'' = Some (6 + length d)" by simp
  have s: "slice ?r (length a + 6) (length a + (6 + length d)) = d"
    by (simp add: slice_def)
  define X where "X = a @ ''[PORT:'' @ d @ '']''"
  have lenX: "length X = length a + (6 + length d) + 1" by (simp add: X_def)
  have rX: "?r = X @ b" by (simp add: X_def)
  have "drop (length X) (X @ b) = b" by simp
  then have dr: "drop (length a + (6 + length d) + 1) ?r = b"
    unfolding lenX rX .
  have tk: "take (length a) ?r = a" by simp
  show ?thesis
    by (subst strip_port_placeholders.simps) (simp only: i e option.case s dr tk)
qed

lemma strip_no_placeholder_left:
  "strip_port_placeholders r \<noteq> a @ ''[PORT:'' @ d @ '']'' @ b"
proof (induction r rule: strip_port_placeholders.induct)
  case (1 r)
  show ?case
  proof (cases "Index r ''[PORT:''")
    case None
    then have "\<not> sublist ''[PORT:'' r" by (simp add: Index_None_iff)
    moreover have "strip_port_placeholders r = r" using None by simp
    ultimately show ?thesis unfolding sublist_def by metis
  next
    case (Some st)
    show ?thesis
    proof (cases "Index (drop st r) '']''")
      case None
      have eq: "strip_port_placeholders r = r" using Some None by simp
      show ?thesis
      proof
        assume "strip_port_placeholders r = a @ ''[PORT:'' @ d @ '']'' @ b"
        with eq have r: "r = a @ ''[PORT:'' @ (d @ '']'' @ b)" by simp
        from Index_first[OF Some r] have "st \<le> length a" .
        then have "CHR '']'' \<in> set (drop st r)" by (subst r) simp
        with None show False by (simp add: Index_char_None)
      qed
    next
      case (Some e)
      with \<open>Index r ''[PORT:'' = Some st\<close> "1.IH" show ?thesis by simp
    qed
  qed
qed

lemma Index_skip:
  "c \<notin> set p \<Longrightarrow>
   Index (p @ s) (c # cs) =
     (case Index s (c # cs) of None \<Rightarrow> None | Some i \<Rightarrow> Some (length p + i))"
  by (induction p) (auto split: option.splits)

lemma strip_skip_prefix:
  "CHR ''['' \<notin> set p \<Longrightarrow> strip_port_placeholders (p @ r) = p @ strip_port_placeholders r"
proof (induction r rule: strip_port_placeholders.induct)
  case (1 r)
  have ix: "Index (p @ s) ''[PORT:'' =
      (case Index s ''[PORT:'' of None \<Rightarrow> None | Some i \<Rightarrow> Some (length p + i))" for s
    using "1.prems" by (rule Index_skip)
  show ?case
  proof (cases "Index r ''[PORT:''")
    case None
    then show ?thesis using ix[of r] by simp
  next
    case (Some st)
    note st = this
    then have i: "Index (p @ r) ''[PORT:'' = Some (length p + st)" using ix[of r] by simp
    have dr: "drop (length p + st) (p @ r) = drop st r" by simp
    show ?thesis
    proof (cases "Index (drop st r) '']''")
      case None
      have "strip_port_placeholders (p @ r) = p @ r"
        by (subst strip_port_placeholders.simps) (simp only: i dr None option.case)
      moreover have "strip_port_placeholders r = r" using st None by simp
      ultimately show ?thesis by simp
    next
      case (Some e)
      have a: "strip_port_placeholders (p @ r) =
         strip_port_placeholders (take (length p + st) (p @ r)
            @ slice (p @ r) (length p + st + 6) (length p + st + e)
            @ drop (length p + st + e + 1) (p @ r))"
        by (subst strip_port_placeholders.simps) (simp only: i dr Some option.case)
      have b: "take (length p + st) (p @ r) @ slice (p @ r) (length p + st + 6) (length p + st + e)
            @ drop (length p + st + e + 1) (p @ r)
          = p @ (take st r @ slice r (st + 6) (st + e) @ drop (st + e + 1) r)"
        by (simp add: slice_def add.assoc)
      have c: "strip_port_placeholders r =
         strip_port_placeholders (take st r @ slice r (st + 6) (st + e) @ drop (st + e + 1) r)"
        using st Some by simp
      show ?thesis
        unfolding a b using "1.IH"[OF st Some "1.prems"] c by simp
    qed
  qed
qed


lemma strip_simple:
  assumes "CHR ''['' \<notin> set a" "CHR ''['' \<notin> set d" "CHR '']'' \<notin> set d"
  shows "strip_port_placeholders (a @ ''[PORT:'' @ d @ '']'' @ b)
         = a @ d @ strip_port_placeholders b"
proof -
  have "Index (a @ ''[PORT'') ''[PORT:'' = None"
    using assms(1) by (simp add: Index_skip)
  then have n: "\<not> sublist ''[PORT:'' (a @ ''[PORT'')" using Index_None_iff by blast
  have "strip_port_placeholders (a @ ''[PORT:'' @ d @ '']'' @ b)
        = strip_port_placeholders ((a @ d) @ b)"
    using strip_wellformed[OF n assms(3)] by simp
  also have "\<dots> = (a @ d) @ strip_port_placeholders b"
    using assms(1,2) by (intro strip_skip_prefix) simp
  finally show ?thesis by simp
qed

lemma port_slice_in_range:
  assumes "Index r ''[PORT:'' = Some st" "Index (drop st r) '']'' = Some e"
  shows "st + 6 \<le> st + e \<and> st + e + 1 \<le> length r"
proof -
  have six: "length ''[PORT:'' = 6" by simp
  from Index_Some_D[OF assms(1)] have a: "st + 6 \<le> length r"
    and t: "take 6 (drop st r) = ''[PORT:''" unfolding six by blast+
  from Index_Some_D[OF assms(2)] have "e + 1 \<le> length r - st" by simp
  with a have b: "st + e + 1 \<le> length r" by linarith
  have "drop st r = take 6 (drop st r) @ drop 6 (drop st r)" by (simp only: append_take_drop_id)
  with t have "drop st r = ''[PORT:'' @ drop 6 (drop st r)" by simp
  then obtain rest where "drop st r = ''[PORT:'' @ rest" ..
  with assms(2) have "6 \<le> e" by auto
  with b show ?thesis by simp
qed

text \<open>
  Claim C6. The two reference cases hold whenever the URL library reports the host
  \<open>192.168.1.100\<close> for \<open>http://192.168.1.100\<close>. In general, when the management
  URL parses with hostname \<open>host\<close>, the result is the \<open>[PORT:...]\<close> stripping of the
  \<open>[IP]\<close> replacement (and the input itself when it does not parse). The \<open>[IP]\<close>
  replacement leaves a string without \<open>[IP]\<close> unchanged and distributes over every
  occurrence: \<open>a[IP]b\<close> becomes the replacement of \<open>a\<close>, then \<open>host\<close>, then the
  replacement of \<open>b\<close>. The stripping leaves a string without \<open>[PORT:\<close> unchanged,
  leaves a string whose first \<open>[PORT:\<close> has no later \<open>]\<close> unchanged, replaces the
  first \<open>[PORT:d]\<close> by \<open>d\<close> and goes on with the resulting string, gives
  \<open>a d\<close> followed by the stripping of \<open>b\<close> on \<open>a[PORT:d]b\<close> when \<open>a\<close> and \<open>d\<close>
  hold no bracket, and never leaves a \<open>[PORT:\<close> with a \<open>]\<close> after it.
\<close>

theorem processUnraidWebUIURL_placeholders:
  "(url_hostname ''http://192.168.1.100'' = Some ''192.168.1.100'' \<longrightarrow>
      processUnraidWebUIURL url_hostname ''http://[IP]:32400/web'' ''http://192.168.1.100''
        = ''http://192.168.1.100:32400/web'' \<and>
      processUnraidWebUIURL url_hostname ''http://[IP]:[PORT:8080]/'' ''http://192.168.1.100''
        = ''http://192.168.1.100:8080/'') \<and>
   (url_hostname u = Some host \<longrightarrow>
      processUnraidWebUIURL url_hostname w u
        = strip_port_placeholders (ReplaceAll w ''[IP]'' host)) \<and>
   (url_hostname u = None \<longrightarrow> processUnraidWebUIURL url_hostname w u = w) \<and>
   (\<not> sublist ''[IP]'' w \<longrightarrow> ReplaceAll w ''[IP]'' host = w) \<and>
   ReplaceAll (a @ ''[IP]'' @ b) ''[IP]'' host
     = ReplaceAll a ''[IP]'' host @ host @ ReplaceAll b ''[IP]'' host \<and>
   (\<not> sublist ''[PORT:'' r \<longrightarrow> strip_port_placeholders r = r) \<and>
   (\<not> sublist ''[PORT:'' (a @ ''[PORT'') \<and> CHR '']'' \<notin> set t \<longrightarrow>
      strip_port_placeholders (a @ ''[PORT:'' @ t) = a @ ''[PORT:'' @ t) \<and>
   (\<not> sublist ''[PORT:'' (a @ ''[PORT'') \<and> CHR '']'' \<notin> set d \<longrightarrow>
      strip_port_placeholders (a @ ''[PORT:'' @ d @ '']'' @ b)
        = strip_port_placeholders (a @ d @ b)) \<and>
   (CHR ''['' \<notin> set a \<and> CHR ''['' \<notin> set d \<and> CHR '']'' \<notin> set d \<longrightarrow>
      strip_port_placeholders (a @ ''[PORT:'' @ d @ '']'' @ b)
        = a @ d @ strip_port_placeholders b) \<and>
   (\<forall>p q s. strip_port_placeholders r \<noteq> p @ ''[PORT:'' @ q @ '']'' @ s)"
proof (intro conjI impI allI)
  assume h: "url_hostname ''http://192.168.1.100'' = Some ''192.168.1.100''"
  show "processUnraidWebUIURL url_hostname ''http://[IP]:32400/web'' ''http://192.168.1.100''
        = ''http://192.168.1.100:32400/web''"
    using h by (simp add: processUnraidWebUIURL_def)
  show "processUnraidWebUIURL url_hostname ''http://[IP]:[PORT:8080]/'' ''http://192.168.1.100''
        = ''http://192.168.1.100:8080/''"
    using h by (simp add: processUnraidWebUIURL_def slice_def)
next
  assume "url_hostname u = Some host"
  then show "processUnraidWebUIURL url_hostname w u
        = strip_port_placeholders (ReplaceAll w ''[IP]'' host)"
    by (simp add: processUnraidWebUIURL_def)
next
  assume "url_hostname u = None"
  then show "processUnraidWebUIURL url_hostname w u = w"
    by (simp add: processUnraidWebUIURL_def)
next
  assume "\<not> sublist ''[IP]'' w"
  then show "ReplaceAll w ''[IP]'' host = w" by (rule ReplaceAll_absent)
next
  show "ReplaceAll (a @ ''[IP]'' @ b) ''[IP]'' host
     = ReplaceAll a ''[IP]'' host @ host @ ReplaceAll b ''[IP]'' host"
    by (rule ReplaceAll_IP_append)
next
  assume "\<not> sublist ''[PORT:'' r"
  then show "strip_port_placeholders r = r" by (rule strip_absent)
next
  assume "\<not> sublist ''[PORT:'' (a @ ''[PORT'') \<and> CHR '']'' \<notin> set t"
  then show "strip_port_placeholders (a @ ''[PORT:'' @ t) = a @ ''[PORT:'' @ t"
    using strip_malformed by blast
next
  assume "\<not> sublist ''[PORT:'' (a @ ''[PORT'') \<and> CHR '']'' \<notin> set d"
  then show "strip_port_placeholders (a @ ''[PORT:'' @ d @ '']'' @ b)
        = strip_port_placeholders (a @ d @ b)"
    using strip_wellformed by blast
next
  assume "CHR ''['' \<notin> set a \<and> CHR ''['' \<notin> set d \<and> CHR '']'' \<notin> set d"
  then show "strip_port_placeholders (a @ ''[PORT:'' @ d @ '']'' @ b)
        = a @ d @ strip_port_placeholders b"
    using strip_simple by blast
next
  fix p q s
  show "strip_port_placeholders r \<noteq> p @ ''[PORT:'' @ q @ '']'' @ s"
    by (rule strip_no_placeholder_left)
qed

lemma plain_url_hostname_example:
  "plain_url_hostname ''http://192.168.1.100'' = Some ''192.168.1.100''"
  by (simp add: plain_url_hostname_def)

theorem processUnraidWebUIURL_placeholders_witness:
  "plain_url_hostname ''http://192.168.1.100'' = Some ''192.168.1.100'' \<and>
   processUnraidWebUIURL plain_url_hostname ''http://[IP]:32400/web'' ''http://192.168.1.100''
     = ''http://192.168.1.100:32400/web'' \<and>
   processUnraidWebUIURL plain_url_hostname ''http://[IP]:[PORT:8080]/'' ''http://192.168.1.100''
     = ''http://192.168.1.100:8080/'' \<and>
   processUnraidWebUIURL plain_url_hostname ''https://tower:8443/ui'' ''http://192.168.1.100''
     = strip_port_placeholders (ReplaceAll ''https://tower:8443/ui'' ''[IP]'' ''192.168.1.100'') \<and>
   ReplaceAll ''https://tower:8443/ui'' ''[IP]'' ''192.168.1.100'' = ''https://tower:8443/ui'' \<and>
   strip_port_placeholders ''https://tower:8443/ui'' = ''https://tower:8443/ui'' \<and>
   strip_port_placeholders (''http://h:'' @ ''[PORT:'' @ ''80/x'') = ''http://h:'' @ ''[PORT:'' @ ''80/x'' \<and>
   strip_port_placeholders (''http://h:'' @ ''[PORT:'' @ ''80'' @ '']'' @ ''/x'')
     = strip_port_placeholders (''http://h:'' @ ''80'' @ ''/x'') \<and>
   strip_port_placeholders (''http://h:'' @ ''[PORT:'' @ ''80'' @ '']'' @ ''/x'')
     = ''http://h:'' @ ''80'' @ strip_port_placeholders ''/x''"
proof -
  note T = processUnraidWebUIURL_placeholders[of plain_url_hostname "''http://192.168.1.100''"
      "''192.168.1.100''" "''https://tower:8443/ui''" "''http://h:''" "''/x''"
      "''https://tower:8443/ui''" "''80/x''" "''80''"]
  have h1: "plain_url_hostname ''http://192.168.1.100'' = Some ''192.168.1.100''"
    by (rule plain_url_hostname_example)
  have h2: "\<not> sublist ''[IP]'' ''https://tower:8443/ui''"
    by (simp add: sublist_Cons_right)
  have h3: "\<not> sublist ''[PORT:'' ''https://tower:8443/ui''"
    by (simp add: sublist_Cons_right)
  have h4: "\<not> sublist ''[PORT:'' (''http://h:'' @ ''[PORT'')"
    by (simp add: sublist_Cons_right)
  have h5: "CHR '']'' \<notin> set ''80/x''" "CHR '']'' \<notin> set ''80''" "CHR ''['' \<notin> set ''80''"
    "CHR ''['' \<notin> set ''http://h:''" by simp_all
  show ?thesis
    using T h1 h2 h3 h4 h5 by blast
qed

section \<open>Sub-path deduplication\<close>


lemma keep_loop_result:
  "keep_loop xs kept result = result @ keep_loop xs kept []"
proof (induction xs arbitrary: kept result)
  case Nil
  then show ?case by simp
next
  case (Cons x xs)
  have a: "keep_loop xs k (result @ [x]) = result @ [x] @ keep_loop xs k []" for k
    using Cons.IH[of k "result @ [x]"] by simp
  have b: "keep_loop xs k [x] = [x] @ keep_loop xs k []" for k
    using Cons.IH[of k "[x]"] by simp
  show ?case
    using Cons.IH[of kept result] by (simp add: Let_def a b)
qed

lemma keep_loop_snoc:
  "keep_loop (xs @ [a]) kept result =
     keep_loop xs kept result @
       (if list_ex (\<lambda>keptURL. prefix (keptURL @ ''/'') (TrimRight (URL a) ''/''))
             (kept @ map (\<lambda>k. TrimRight (URL k) ''/'') (keep_loop xs kept []))
        then [] else [a])"
proof (induction xs arbitrary: kept result)
  case Nil
  then show ?case by (simp add: Let_def)
next
  case (Cons x xs)
  let ?nx = "TrimRight (URL x) ''/''"
  show ?case
  proof (cases "list_ex (\<lambda>keptURL. prefix (keptURL @ ''/'') ?nx) kept")
    case True
    then have l: "keep_loop ((x # xs) @ [a]) kept result = keep_loop (xs @ [a]) kept result"
      and r: "keep_loop (x # xs) kept r' = keep_loop xs kept r'" for r'
      by (simp_all add: Let_def)
    show ?thesis unfolding l r by (rule Cons.IH)
  next
    case False
    then have l: "keep_loop ((x # xs) @ [a]) kept result
                  = keep_loop (xs @ [a]) (kept @ [?nx]) (result @ [x])"
      and r: "keep_loop (x # xs) kept r' = keep_loop xs (kept @ [?nx]) (r' @ [x])" for r'
      by (simp_all add: Let_def)
    have m: "kept @ map (\<lambda>k. TrimRight (URL k) ''/'') (keep_loop xs (kept @ [?nx]) ([] @ [x]))
        = (kept @ [?nx]) @ map (\<lambda>k. TrimRight (URL k) ''/'') (keep_loop xs (kept @ [?nx]) [])"
      using keep_loop_result[of xs "kept @ [?nx]" "[x]"] by simp
    show ?thesis unfolding l r m by (rule Cons.IH)
  qed
qed

lemma host_keep_Nil: "host_keep [] = []"
  by (simp add: host_keep_def)

lemma host_keep_snoc:
  "host_keep (xs @ [a]) = host_keep xs @ (if extends_kept (host_keep xs) a then [] else [a])"
proof -
  have "list_ex (\<lambda>keptURL. prefix (keptURL @ ''/'') (TrimRight (URL a) ''/''))
          ([] @ map (\<lambda>k. TrimRight (URL k) ''/'') (keep_loop xs [] []))
        \<longleftrightarrow> extends_kept (host_keep xs) a"
    by (auto simp: extends_kept_def host_keep_def list_ex_iff)
  then show ?thesis
    unfolding host_keep_def using keep_loop_snoc[of xs a "[]" "[]"] by simp
qed

lemma group_byHost_lookup:
  "group_byHost apps m h =
     (if host_apps apps h = [] then m h
      else Some ((case m h of None \<Rightarrow> [] | Some l \<Rightarrow> l) @ host_apps apps h))"
proof (induction apps arbitrary: m)
  case Nil
  then show ?case by (simp add: host_apps_def)
next
  case (Cons a apps)
  show ?case
    by (simp add: Cons.IH Let_def host_apps_def)
qed

lemma group_byHost_empty:
  "group_byHost apps Map.empty h =
     (if host_apps apps h = [] then None else Some (host_apps apps h))"
  by (simp add: group_byHost_lookup)

lemma dom_group_byHost:
  "dom (group_byHost apps Map.empty) = url_host ` URL ` set apps"
proof -
  have "host_apps apps h \<noteq> [] \<longleftrightarrow> h \<in> url_host ` URL ` set apps" for h
    by (auto simp: host_apps_def filter_empty_conv)
  then show ?thesis
    by (auto simp: dom_def group_byHost_empty)
qed

lemma host_loop_concat:
  "host_loop sortSlice byHost order result =
     result @ concat (map (\<lambda>h. case byHost h of None \<Rightarrow> []
                                 | Some hostApps \<Rightarrow> host_keep (sortSlice hostApps)) order)"
proof (induction order arbitrary: result)
  case Nil
  then show ?case by simp
next
  case (Cons h hs)
  show ?case
  proof (cases "byHost h")
    case None
    then show ?thesis by (simp add: Cons.IH)
  next
    case (Some l)
    then show ?thesis
      using keep_loop_result[of "sortSlice l" "[]" result]
      by (simp add: Cons.IH host_keep_def)
  qed
qed

lemma dedupe_concat:
  assumes "set order \<subseteq> dom (group_byHost apps Map.empty)"
  shows "dedupeAppsByBasePath sortSlice order apps =
     concat (map (\<lambda>h. host_keep (sortSlice (host_apps apps h))) order)"
proof (cases "apps = []")
  case True
  with assms have "order = []" by simp
  with True show ?thesis by (simp add: dedupeAppsByBasePath_def)
next
  case False
  have "(case group_byHost apps Map.empty h of None \<Rightarrow> []
         | Some hostApps \<Rightarrow> host_keep (sortSlice hostApps))
        = host_keep (sortSlice (host_apps apps h))" if "h \<in> set order" for h
  proof -
    from that assms have "h \<in> dom (group_byHost apps Map.empty)" by blast
    then have "host_apps apps h \<noteq> []" by (auto simp: group_byHost_empty split: if_splits)
    then show ?thesis by (simp add: group_byHost_empty)
  qed
  then have eqm: "map (\<lambda>h. case group_byHost apps Map.empty h of None \<Rightarrow> []
         | Some hostApps \<Rightarrow> host_keep (sortSlice hostApps)) order
     = map (\<lambda>h. host_keep (sortSlice (host_apps apps h))) order"
    by simp
  show ?thesis
    unfolding dedupeAppsByBasePath_def host_loop_concat eqm using False by simp
qed

lemma sorted_pair:
  assumes "sorts_by_URL_length f" "length (URL a) < length (URL b)"
    "mset xs = {#a, b#}"
  shows "f xs = [a, b]"
proof -
  from assms(1) have m: "mset (f xs) = mset xs"
    and s: "sorted_wrt (\<lambda>a b. length (URL a) \<le> length (URL b)) (f xs)"
    by (simp_all add: sorts_by_URL_length_def)
  from m assms(3) have m': "mset (f xs) = {#a, b#}" by simp
  then have "length (f xs) = 2" by (metis size_mset size_add_mset size_empty numeral_2_eq_2)
  then obtain x y where xy: "f xs = [x, y]"
    by (metis (no_types, opaque_lifting) length_0_conv length_Suc_conv numeral_2_eq_2)
  with m' have "{#x, y#} = {#a, b#}" by simp
  then have "(x = a \<and> y = b) \<or> (x = b \<and> y = a)"
    by (auto simp: add_eq_conv_ex)
  moreover from s xy have "length (URL x) \<le> length (URL y)" by simp
  ultimately show ?thesis using assms(2) xy by auto
qed


lemma TrimRight_last:
  "c \<notin> set cutset \<Longrightarrow> TrimRight (s @ [c]) cutset = s @ [c]"
  by (simp add: TrimRight_def)

lemma distinct_singleton_set:
  assumes "distinct xs" "set xs = {h}"
  shows "xs = [h]"
proof -
  from assms(1) have "card (set xs) = length xs" by (rule distinct_card)
  with assms(2) have "length xs = 1" by simp
  then obtain x where "xs = [x]" by (cases xs) auto
  with assms(2) show ?thesis by simp
qed

lemma lidarr_pair:
  assumes srt: "sorts_by_URL_length sortSlice"
    and ux: "URL x = u @ ''/lidarr''" and uy: "URL y = u @ ''/lidarr/api''"
    and hh: "url_host (URL x) = url_host (URL y)"
    and apps: "apps = [x, y] \<or> apps = [y, x]"
    and ro: "ranges_over order (group_byHost apps Map.empty)"
  shows "dedupeAppsByBasePath sortSlice order apps = [x]"
proof -
  let ?h = "url_host (URL x)"
  have ha: "host_apps apps ?h = apps" using apps hh by (auto simp: host_apps_def)
  have "dom (group_byHost apps Map.empty) = {?h}"
    unfolding dom_group_byHost using apps hh by auto
  with ro have o: "order = [?h]"
    by (simp add: ranges_over_def distinct_singleton_set)
  have len: "length (URL x) < length (URL y)" by (simp add: ux uy)
  have "mset apps = {#x, y#}" using apps by auto
  from sorted_pair[OF srt len this] have s: "sortSlice apps = [x, y]" .
  have tx: "TrimRight (URL x) ''/'' = u @ ''/lidarr''"
    using TrimRight_last[of "CHR ''r''" "''/''" "u @ ''/lidar''"] by (simp add: ux)
  have ty: "TrimRight (URL y) ''/'' = u @ ''/lidarr/api''"
    using TrimRight_last[of "CHR ''i''" "''/''" "u @ ''/lidarr/ap''"] by (simp add: uy)
  have k1: "host_keep [x] = [x]"
    using host_keep_snoc[of "[]" x] by (simp add: host_keep_Nil extends_kept_def)
  have "extends_kept [x] y" by (simp add: extends_kept_def tx ty)
  then have k2: "host_keep [x, y] = [x]"
    using host_keep_snoc[of "[x]" y] k1 by simp
  have "dedupeAppsByBasePath sortSlice order apps
        = concat (map (\<lambda>h. host_keep (sortSlice (host_apps apps h))) order)"
    using ro by (intro dedupe_concat) (simp add: ranges_over_def)
  then show ?thesis by (simp add: o ha s k2)
qed

text \<open>
  Claim C7. For every function \<open>sortSlice\<close> that sorts by URL length and every order in
  which the runtime ranges over the hosts (each host once): the applications are
  grouped by host (the group of \<open>h\<close> is the applications whose URL has host \<open>h\<close>, in
  input order); each group is sorted by URL length ascending; the result is, host after
  host, what the keep loop leaves of the sorted group; and that loop keeps an application
  exactly when no application kept before it for that host has a trimmed URL which,
  followed by \<open>/\<close>, is a prefix of its own trimmed URL. In particular two applications
  of one host at \<open>u/lidarr\<close> and \<open>u/lidarr/api\<close>, given in either order, leave only the
  one at \<open>u/lidarr\<close>.
\<close>

theorem dedupeAppsByBasePath_spec:
  assumes "sorts_by_URL_length sortSlice"
    and "ranges_over order (group_byHost apps Map.empty)"
  shows
   "(\<forall>h. group_byHost apps Map.empty h
          = (if host_apps apps h = [] then None else Some (host_apps apps h))) \<and>
    distinct order \<and> set order = url_host ` URL ` set apps \<and>
    (\<forall>h. mset (sortSlice (host_apps apps h)) = mset (host_apps apps h) \<and>
         sorted_wrt (\<lambda>a b. length (URL a) \<le> length (URL b)) (sortSlice (host_apps apps h))) \<and>
    dedupeAppsByBasePath sortSlice order apps
      = concat (map (\<lambda>h. host_keep (sortSlice (host_apps apps h))) order) \<and>
    host_keep [] = [] \<and>
    (\<forall>xs a. host_keep (xs @ [a])
            = host_keep xs @ (if extends_kept (host_keep xs) a then [] else [a])) \<and>
    (\<forall>x y u order'.
        URL x = u @ ''/lidarr'' \<and> URL y = u @ ''/lidarr/api'' \<and>
        url_host (URL x) = url_host (URL y) \<and>
        ranges_over order' (group_byHost [x, y] Map.empty) \<longrightarrow>
        dedupeAppsByBasePath sortSlice order' [x, y] = [x] \<and>
        dedupeAppsByBasePath sortSlice order' [y, x] = [x])"
proof (intro conjI allI impI)
  fix h
  show "group_byHost apps Map.empty h
          = (if host_apps apps h = [] then None else Some (host_apps apps h))"
    by (rule group_byHost_empty)
  show "mset (sortSlice (host_apps apps h)) = mset (host_apps apps h)"
    using assms(1) by (simp add: sorts_by_URL_length_def)
  show "sorted_wrt (\<lambda>a b. length (URL a) \<le> length (URL b)) (sortSlice (host_apps apps h))"
    using assms(1) by (simp add: sorts_by_URL_length_def)
next
  show "distinct order" using assms(2) by (simp add: ranges_over_def)
  show "set order = url_host ` URL ` set apps"
    using assms(2) by (simp add: ranges_over_def dom_group_byHost)
  show "dedupeAppsByBasePath sortSlice order apps
      = concat (map (\<lambda>h. host_keep (sortSlice (host_apps apps h))) order)"
    using assms(2) by (intro dedupe_concat) (simp add: ranges_over_def)
  show "host_keep [] = []" by (rule host_keep_Nil)
next
  fix xs a
  show "host_keep (xs @ [a])
            = host_keep xs @ (if extends_kept (host_keep xs) a then [] else [a])"
    by (rule host_keep_snoc)
next
  fix x y u order'
  assume h: "URL x = u @ ''/lidarr'' \<and> URL y = u @ ''/lidarr/api'' \<and>
        url_host (URL x) = url_host (URL y) \<and>
        ranges_over order' (group_byHost [x, y] Map.empty)"
  then have ro: "ranges_over order' (group_byHost [x, y] Map.empty)" by blast
  have "dom (group_byHost [y, x] Map.empty) = dom (group_byHost [x, y] Map.empty)"
    unfolding dom_group_byHost by auto
  with ro have ro': "ranges_over order' (group_byHost [y, x] Map.empty)"
    by (simp add: ranges_over_def)
  from h have ux: "URL x = u @ ''/lidarr''" and uy: "URL y = u @ ''/lidarr/api''"
    and hh: "url_host (URL x) = url_host (URL y)" by blast+
  show "dedupeAppsByBasePath sortSlice order' [x, y] = [x]"
    by (rule lidarr_pair[OF assms(1) ux uy hh _ ro]) simp
  show "dedupeAppsByBasePath sortSlice order' [y, x] = [x]"
    by (rule lidarr_pair[OF assms(1) ux uy hh _ ro']) simp
qed


lemma insertion_sortSlice_sorts: "sorts_by_URL_length insertion_sortSlice"
  unfolding sorts_by_URL_length_def insertion_sortSlice_def
  using sorted_sort_key[of "\<lambda>a::App. length (URL a)"]
  by (simp add: sorted_map)

theorem dedupeAppsByBasePath_spec_witness:
  "sorts_by_URL_length insertion_sortSlice \<and>
   ranges_over [''nas.lan'', ''media.lan'']
     (group_byHost [mkApp ''Api'' ''http://media.lan/lidarr/api'',
                    mkApp ''Files'' ''https://nas.lan/files'',
                    mkApp ''Lidarr'' ''http://media.lan/lidarr''] Map.empty) \<and>
   dedupeAppsByBasePath insertion_sortSlice [''nas.lan'', ''media.lan'']
     [mkApp ''Api'' ''http://media.lan/lidarr/api'',
      mkApp ''Files'' ''https://nas.lan/files'',
      mkApp ''Lidarr'' ''http://media.lan/lidarr'']
    = [mkApp ''Files'' ''https://nas.lan/files'', mkApp ''Lidarr'' ''http://media.lan/lidarr''] \<and>
   ranges_over [''media.lan'']
     (group_byHost [mkApp ''Lidarr'' ''http://media.lan/lidarr'',
                    mkApp ''Api'' ''http://media.lan/lidarr/api''] Map.empty) \<and>
   dedupeAppsByBasePath insertion_sortSlice [''media.lan'']
     [mkApp ''Api'' ''http://media.lan/lidarr/api'', mkApp ''Lidarr'' ''http://media.lan/lidarr'']
    = [mkApp ''Lidarr'' ''http://media.lan/lidarr'']"
proof -
  let ?api = "mkApp ''Api'' ''http://media.lan/lidarr/api''"
  let ?files = "mkApp ''Files'' ''https://nas.lan/files''"
  let ?lidarr = "mkApp ''Lidarr'' ''http://media.lan/lidarr''"
  let ?apps = "[?api, ?files, ?lidarr]"
  have hosts: "url_host (URL ?api) = ''media.lan''" "url_host (URL ?files) = ''nas.lan''"
    "url_host (URL ?lidarr) = ''media.lan''"
    by (simp_all add: url_host_def mkApp_def)
  have ro: "ranges_over [''nas.lan'', ''media.lan''] (group_byHost ?apps Map.empty)"
    unfolding ranges_over_def dom_group_byHost using hosts by auto
  have ro2: "ranges_over [''media.lan''] (group_byHost [?lidarr, ?api] Map.empty)"
    unfolding ranges_over_def dom_group_byHost using hosts by auto
  note T = dedupeAppsByBasePath_spec[OF insertion_sortSlice_sorts ro]
  from T have c: "dedupeAppsByBasePath insertion_sortSlice [''nas.lan'', ''media.lan''] ?apps
      = concat (map (\<lambda>h. host_keep (insertion_sortSlice (host_apps ?apps h)))
                 [''nas.lan'', ''media.lan''])"
    by blast
  have ha: "host_apps ?apps ''nas.lan'' = [?files]" "host_apps ?apps ''media.lan'' = [?api, ?lidarr]"
    using hosts by (simp_all add: host_apps_def)
  have s: "insertion_sortSlice [?files] = [?files]"
    "insertion_sortSlice [?api, ?lidarr] = [?lidarr, ?api]"
    by (simp_all add: insertion_sortSlice_def mkApp_def)
  have k: "host_keep [?files] = [?files]" "host_keep [?lidarr, ?api] = [?lidarr]"
    by (simp_all add: host_keep_def mkApp_def TrimRight_def Let_def)
  have r1: "dedupeAppsByBasePath insertion_sortSlice [''nas.lan'', ''media.lan''] ?apps
      = [?files, ?lidarr]"
    unfolding c by (simp add: ha s k)
  from T have "URL ?lidarr = ''http://media.lan'' @ ''/lidarr'' \<and>
        URL ?api = ''http://media.lan'' @ ''/lidarr/api'' \<and>
        url_host (URL ?lidarr) = url_host (URL ?api) \<and>
        ranges_over [''media.lan''] (group_byHost [?lidarr, ?api] Map.empty) \<longrightarrow>
        dedupeAppsByBasePath insertion_sortSlice [''media.lan''] [?lidarr, ?api] = [?lidarr] \<and>
        dedupeAppsByBasePath insertion_sortSlice [''media.lan''] [?api, ?lidarr] = [?lidarr]"
    by blast
  moreover have "URL ?lidarr = ''http://media.lan'' @ ''/lidarr''"
    "URL ?api = ''http://media.lan'' @ ''/lidarr/api''" by (simp_all add: mkApp_def)
  ultimately have r2: "dedupeAppsByBasePath insertion_sortSlice [''media.lan''] [?api, ?lidarr] = [?lidarr]"
    using hosts ro2 by simp
  show ?thesis
    using insertion_sortSlice_sorts ro r1 ro2 r2 by blast
qed

section \<open>Include inlining\<close>


lemma resolveIncludes_rel_step:
  assumes "resolveIncludes_rel (env', content', depth') (env, content, depth)"
  shows "env' = env \<and> depth \<le> 3 \<and> depth' = depth + 1"
  using assms by (cases rule: resolveIncludes_rel.cases) auto

lemma resolveIncludes_rel_chain:
  "(resolveIncludes_rel ^^ n) (env', content', depth') (env, content, depth) \<Longrightarrow>
   env' = env \<and> depth' = depth + int n \<and> (0 < n \<longrightarrow> depth' \<le> 4)"
proof (induction n arbitrary: env' content' depth')
  case 0
  then show ?case by simp
next
  case (Suc n)
  from Suc.prems obtain y where
    y: "resolveIncludes_rel (env', content', depth') y"
       "(resolveIncludes_rel ^^ n) y (env, content, depth)"
    by (auto simp: relpowp_Suc_left OO_def simp del: relpowp.simps)
  obtain e c d where yy: "y = (e, c, d)" by (cases y) auto
  from Suc.IH[of e c d] y(2) yy have a: "e = env" "d = depth + int n" by simp_all
  from resolveIncludes_rel_step[of env' content' depth' e c d] y(1) yy
  have b: "env' = e" "d \<le> 3" "depth' = d + 1" by simp_all
  from a b show ?case by simp
qed

lemma resolveIncludes_rel_wf: "wfP resolveIncludes_rel"
proof -
  have "{(x, y). resolveIncludes_rel x y} \<subseteq> measure (\<lambda>(env, content, depth). nat (4 - depth))"
  proof (clarify)
    fix e' c' d' e c d
    assume "resolveIncludes_rel (e', c', d') (e, c, d)"
    from resolveIncludes_rel_step[OF this]
    show "((e', c', d'), (e, c, d)) \<in> measure (\<lambda>(env, content, depth). nat (4 - depth))"
      by simp
  qed
  then have "wf {(x, y). resolveIncludes_rel x y}"
    by (rule wf_subset[OF wf_measure])
  then show ?thesis by (simp add: wfp_def)
qed

text \<open>
  Claim C8. \<open>resolveIncludes\<close> is a total function (its termination is proved at its
  definition, with no assumption on the include graph). An invocation with depth
  beyond 3 returns its content as it is, include directives unexpanded. In the
  function's call relation (\<open>resolveIncludes_rel callee caller\<close>) every nested call is
  made by an invocation of depth at most 3 and has that depth plus 1; a chain of \<open>n\<close>
  nested calls ends at the starting depth plus \<open>n\<close>, never beyond depth 4, so below an
  invocation of depth 0 or more there are at most 4 levels; the relation is
  well-founded.
\<close>

theorem resolveIncludes_depth_cap:
  "(3 < depth \<longrightarrow> resolveIncludes env content depth = content) \<and>
   (resolveIncludes_rel (env', content', depth') (env, content, depth) \<longrightarrow>
      env' = env \<and> depth \<le> 3 \<and> depth' = depth + 1) \<and>
   ((resolveIncludes_rel ^^ n) (env', content', depth') (env, content, depth) \<longrightarrow>
      depth' = depth + int n \<and> (0 < n \<longrightarrow> depth' \<le> 4) \<and> (0 \<le> depth \<longrightarrow> n \<le> 4)) \<and>
   wfP resolveIncludes_rel"
proof (intro conjI impI)
  assume "3 < depth"
  then show "resolveIncludes env content depth = content" by simp
next
  assume "resolveIncludes_rel (env', content', depth') (env, content, depth)"
  from resolveIncludes_rel_step[OF this]
  show "env' = env" "depth \<le> 3" "depth' = depth + 1" by simp_all
next
  assume c: "(resolveIncludes_rel ^^ n) (env', content', depth') (env, content, depth)"
  from resolveIncludes_rel_chain[OF c]
  show d: "depth' = depth + int n" by simp
  show "depth' \<le> 4" if "0 < n" using resolveIncludes_rel_chain[OF c] that by simp
  show "n \<le> 4" if "0 \<le> depth"
  proof (cases n)
    case 0
    then show ?thesis by simp
  next
    case (Suc m)
    with resolveIncludes_rel_chain[OF c] have "depth + int n \<le> 4" by simp
    with that show ?thesis by simp
  qed
next
  show "wfP resolveIncludes_rel" by (rule resolveIncludes_rel_wf)
qed

lemma cyclic_call:
  "resolveIncludes_rel (cyclic_env, ''include self.conf;'', d + 1) (cyclic_env, ''include self.conf;'', d)"
  if "\<not> 3 < d"
  by (rule resolveIncludes_rel.intros[OF that, of "Match ''include self.conf;''" cyclic_env
         "''include self.conf;''" "''include self.conf;''" "'' self.conf''" "''self.conf''"
         "[''self.conf'']" "''self.conf''" "''self.conf''" 18 "''include self.conf;''"])
     (simp_all add: cyclic_env_def maxIncludeFileSize_def)

theorem resolveIncludes_depth_cap_witness:
  "resolveIncludes cyclic_env ''include self.conf;'' 4 = ''include self.conf;'' \<and>
   resolveIncludes_rel (cyclic_env, ''include self.conf;'', 1) (cyclic_env, ''include self.conf;'', 0) \<and>
   (resolveIncludes_rel ^^ 1) (cyclic_env, ''include self.conf;'', 1) (cyclic_env, ''include self.conf;'', 0) \<and>
   resolveIncludes cyclic_env ''include self.conf;'' 0
     = ''include self.conf;'' @ [newline, newline, newline, newline]"
proof -
  have a: "resolveIncludes cyclic_env ''include self.conf;'' 4 = ''include self.conf;''"
    using resolveIncludes_depth_cap[of 4 cyclic_env "''include self.conf;''"] by simp
  have b: "resolveIncludes_rel (cyclic_env, ''include self.conf;'', 1) (cyclic_env, ''include self.conf;'', 0)"
    using cyclic_call[of 0] by simp
  then have c: "(resolveIncludes_rel ^^ 1) (cyclic_env, ''include self.conf;'', 1) (cyclic_env, ''include self.conf;'', 0)"
    by (simp add: OO_def)
  have d: "resolveIncludes cyclic_env ''include self.conf;'' 0
     = ''include self.conf;'' @ [newline, newline, newline, newline]"
    by (simp add: cyclic_env_def maxIncludeFileSize_def)
  from a b c d show ?thesis by blast
qed

section \<open>Bulk operation on discovered applications\<close>

text \<open>
  A scanner in the middle of a value: the top-level value is not complete and no error
  is recorded.
\<close>

lemma step_ok_error: "\<not> endTop s \<Longrightarrow> step_ok b (scanner_error s c ctx)"
  by (simp add: step_ok_def scanner_error_def)

lemma step_ok_update:
  assumes "\<not> endTop s" "scan_err s = None" "st \<noteq> StateEndTop" "st \<noteq> StateError"
    "code \<noteq> ScanError" "code \<noteq> ScanEnd" "code \<noteq> ScanEndObject" "code \<noteq> ScanEndArray"
  shows "step_ok c (code, s\<lparr>scan_step := st\<rparr>)"
  using assms by (simp add: step_ok_def scanning_def)

lemma step_ok_same:
  assumes "scanning s"
    "code \<noteq> ScanError" "code \<noteq> ScanEnd" "code \<noteq> ScanEndObject" "code \<noteq> ScanEndArray"
  shows "step_ok c (code, s)"
  using assms by (simp add: step_ok_def)

lemma not_isSpace_close: "\<not> isSpace (CHR ''}'')" "\<not> isSpace (CHR '']'')"
  by (simp_all add: isSpace_def)

lemma step_ok_endTop: "step_ok b (stateEndTop s c)"
  by (simp add: step_ok_def stateEndTop_def)

lemma stateEndValue_empty: "parseState s = [] \<Longrightarrow> fst (stateEndValue s c) = ScanEnd"
  by (simp add: stateEndValue_def stateEndTop_def)

lemma stateEndValue_space:
  "parseState s \<noteq> [] \<Longrightarrow>
   stateEndValue s (CHR '' '') = (ScanSkipSpace, s\<lparr>scan_step := StateEndValue\<rparr>)"
  by (simp add: stateEndValue_def isSpace_def)

lemma step_ok_pop:
  assumes "\<not> endTop s" "scan_err s = None" "code = ScanEndObject \<or> code = ScanEndArray"
    "\<not> isSpace c"
  shows "step_ok c (code, popParseState s)"
proof (cases "length (parseState s) - 1 = 0")
  case True
  then have "parseState (popParseState s) = []" by (simp add: popParseState_def)
  from stateEndValue_empty[OF this] assms(3,4) show ?thesis by (auto simp: step_ok_def)
next
  case False
  then have ne: "parseState (popParseState s) \<noteq> []"
    and st: "scan_step (popParseState s) = StateEndValue"
    and et: "endTop (popParseState s) = endTop s"
    and er: "scan_err (popParseState s) = scan_err s"
    by (auto simp: popParseState_def Let_def)
  from st have eq: "(popParseState s)\<lparr>scan_step := StateEndValue\<rparr> = popParseState s" by simp
  from assms st et er have "scanning (popParseState s)" by (simp add: scanning_def)
  with stateEndValue_space[OF ne] eq assms(3,4) show ?thesis by (auto simp: step_ok_def)
qed

lemma step_ok_endValue:
  assumes "\<not> endTop s" "scan_err s = None"
  shows "step_ok c (stateEndValue s c)"
proof (cases "parseState s = []")
  case True
  from stateEndValue_empty[OF this, of c] show ?thesis
    by (cases "stateEndValue s c") (simp add: step_ok_def)
next
  case False
  show ?thesis
  proof (cases "isSpace c")
    case True
    with False have "stateEndValue s c = (ScanSkipSpace, s\<lparr>scan_step := StateEndValue\<rparr>)"
      by (simp add: stateEndValue_def)
    with assms show ?thesis by (simp add: step_ok_update)
  next
    case sp: False
    show ?thesis
    proof (cases "parseState s ! (length (parseState s) - 1)")
      case ParseObjectKey
      with False sp assms show ?thesis
        by (simp add: stateEndValue_def step_ok_error step_ok_update)
    next
      case ParseObjectValue
      with False sp assms show ?thesis
        by (simp add: stateEndValue_def step_ok_error step_ok_update step_ok_pop not_isSpace_close)
    next
      case ParseArrayValue
      with False sp assms show ?thesis
        by (simp add: stateEndValue_def step_ok_error step_ok_update step_ok_pop not_isSpace_close)
    qed
  qed
qed

lemma step_ok_push:
  assumes "\<not> endTop s" "scan_err s = None" "st \<noteq> StateEndTop" "st \<noteq> StateError"
    "code = ScanBeginObject \<or> code = ScanBeginArray"
  shows "step_ok c (pushParseState (s\<lparr>scan_step := st\<rparr>) c p code)"
proof -
  have "step_ok c (code, s\<lparr>scan_step := st, parseState := parseState s @ [p]\<rparr>)"
    using assms by (auto simp: step_ok_def scanning_def)
  then show ?thesis using assms(1) by (simp add: pushParseState_def Let_def step_ok_error)
qed

lemma step_ok_beginValue:
  assumes "scanning s"
  shows "step_ok c (stateBeginValue s c)"
proof -
  from assms have l: "\<not> endTop s" "scan_err s = None" by (simp_all add: scanning_def)
  show ?thesis
    unfolding stateBeginValue_def
    by (simp add: step_ok_error[OF l(1)] step_ok_update[OF l] step_ok_same[OF assms]
        step_ok_push[OF l])
qed

lemma step_ok_beginString:
  assumes "scanning s"
  shows "step_ok c (stateBeginString s c)"
proof -
  from assms have l: "\<not> endTop s" "scan_err s = None" by (simp_all add: scanning_def)
  show ?thesis
    unfolding stateBeginString_def
    by (simp add: step_ok_error[OF l(1)] step_ok_update[OF l] step_ok_same[OF assms])
qed

lemma step_ok_state0:
  assumes "\<not> endTop s" "scan_err s = None"
  shows "step_ok c (state0 s c)"
  unfolding state0_def
  by (simp add: step_ok_update[OF assms] step_ok_endValue[OF assms])

lemma step_ok_stateESign:
  assumes "\<not> endTop s" "scan_err s = None"
  shows "step_ok c (stateESign s c)"
  unfolding stateESign_def
  by (simp add: step_ok_update[OF assms] step_ok_error[OF assms(1)])

lemma step_ok_step:
  assumes "scanning s"
  shows "step_ok c (scanner_step s c)"
proof -
  from assms have l: "\<not> endTop s" "scan_err s = None" by (simp_all add: scanning_def)
  note basic = step_ok_error[OF l(1)] step_ok_update[OF l] step_ok_same[OF assms] step_ok_endValue[OF l]
  show ?thesis
  proof (cases "scan_step s")
    case StateBeginValueOrEmpty
    then show ?thesis
      by (simp add: scanner_step_def stateBeginValueOrEmpty_def basic step_ok_beginValue[OF assms])
  next
    case StateBeginValue
    then show ?thesis by (simp add: scanner_step_def step_ok_beginValue[OF assms])
  next
    case StateBeginStringOrEmpty
    have "\<And>c'. step_ok c' (stateEndValue (s\<lparr>parseState := (parseState s)[length (parseState s) - 1 := ParseObjectValue]\<rparr>) c')"
      by (rule step_ok_endValue) (simp_all add: l)
    with StateBeginStringOrEmpty show ?thesis
      by (simp add: scanner_step_def stateBeginStringOrEmpty_def Let_def basic
          step_ok_beginString[OF assms])
  next
    case StateBeginString
    then show ?thesis by (simp add: scanner_step_def step_ok_beginString[OF assms])
  next
    case StateEndValue
    then show ?thesis by (simp add: scanner_step_def basic)
  next
    case StateEndTop
    then show ?thesis by (simp add: scanner_step_def step_ok_endTop)
  next
    case StateInString
    then show ?thesis by (simp add: scanner_step_def stateInString_def basic)
  next
    case StateInStringEsc
    then show ?thesis by (simp add: scanner_step_def stateInStringEsc_def basic)
  next
    case StateInStringEscU
    then show ?thesis by (simp add: scanner_step_def stateInStringEscU_def basic)
  next
    case StateInStringEscU1
    then show ?thesis by (simp add: scanner_step_def stateInStringEscU_def basic)
  next
    case StateInStringEscU12
    then show ?thesis by (simp add: scanner_step_def stateInStringEscU_def basic)
  next
    case StateInStringEscU123
    then show ?thesis by (simp add: scanner_step_def stateInStringEscU_def basic)
  next
    case StateNeg
    then show ?thesis by (simp add: scanner_step_def stateNeg_def basic)
  next
    case State1
    then show ?thesis by (simp add: scanner_step_def state1_def basic step_ok_state0[OF l])
  next
    case State0
    then show ?thesis by (simp add: scanner_step_def step_ok_state0[OF l])
  next
    case StateDot
    then show ?thesis by (simp add: scanner_step_def stateDot_def basic)
  next
    case StateDot0
    then show ?thesis by (simp add: scanner_step_def stateDot0_def basic)
  next
    case StateE
    then show ?thesis by (simp add: scanner_step_def stateE_def basic step_ok_stateESign[OF l])
  next
    case StateESign
    then show ?thesis by (simp add: scanner_step_def step_ok_stateESign[OF l])
  next
    case StateE0
    then show ?thesis by (simp add: scanner_step_def stateE0_def basic)
  next
    case StateT
    then show ?thesis by (simp add: scanner_step_def stateLiteral_def basic)
  next
    case StateTr
    then show ?thesis by (simp add: scanner_step_def stateLiteral_def basic)
  next
    case StateTru
    then show ?thesis by (simp add: scanner_step_def stateLiteral_def basic)
  next
    case StateF
    then show ?thesis by (simp add: scanner_step_def stateLiteral_def basic)
  next
    case StateFa
    then show ?thesis by (simp add: scanner_step_def stateLiteral_def basic)
  next
    case StateFal
    then show ?thesis by (simp add: scanner_step_def stateLiteral_def basic)
  next
    case StateFals
    then show ?thesis by (simp add: scanner_step_def stateLiteral_def basic)
  next
    case StateN
    then show ?thesis by (simp add: scanner_step_def stateLiteral_def basic)
  next
    case StateNu
    then show ?thesis by (simp add: scanner_step_def stateLiteral_def basic)
  next
    case StateNul
    then show ?thesis by (simp add: scanner_step_def stateLiteral_def basic)
  next
    case StateError
    with assms show ?thesis by (simp add: scanning_def)
  qed
qed

lemma scanner_step_space_reset:
  "isSpace c \<Longrightarrow> scanner_step scanner_reset c = (ScanSkipSpace, scanner_reset)"
  by (simp add: scanner_step_def scanner_reset_def stateBeginValue_def)

lemma isSpace_space: "isSpace (CHR '' '')"
  by (simp add: isSpace_def)

lemma readValue_loop_spaces:
  "list_all isSpace cs \<Longrightarrow>
   readValue_loop buf scanner_reset cs scanp = (if nonSpace buf then Inl ErrUnexpectedEOF else Inl EOF)"
proof (induction cs arbitrary: scanp)
  case Nil
  show ?case by (simp add: scanner_step_space_reset[OF isSpace_space])
next
  case (Cons c cs)
  then have c: "isSpace c" and cs: "list_all isSpace cs" by simp_all
  show ?case by (simp add: scanner_step_space_reset[OF c] Cons.IH[OF cs])
qed

lemma readValue_spaces:
  assumes "list_all isSpace body"
  shows "readValue body = Inl EOF"
proof -
  from assms have "\<not> nonSpace body"
    by (simp add: nonSpace_def list_ex_iff list_all_iff)
  with readValue_loop_spaces[OF assms, of body 0] show ?thesis
    by (simp add: readValue_def)
qed

lemma scanning_reset: "scanning scanner_reset"
  by (simp add: scanning_def scanner_reset_def)

lemma readValue_loop_bounds:
  "scanning s \<Longrightarrow> readValue_loop buf s cs p = Inr n \<Longrightarrow> p \<le> n \<and> n \<le> p + length cs"
proof (induction cs arbitrary: s p)
  case Nil
  then show ?case by (simp split: if_splits)
next
  case (Cons c cs)
  obtain code s' where st: "scanner_step s c = (code, s')" by (cases "scanner_step s c")
  obtain code' s'' where ev: "stateEndValue s' (CHR '' '') = (code', s'')"
    by (cases "stateEndValue s' (CHR '' '')")
  from step_ok_step[OF Cons.prems(1), of c] st have ok: "step_ok c (code, s')" by simp
  show ?case
  proof (cases "code = ScanEnd")
    case True
    with Cons.prems(2) st show ?thesis by simp
  next
    case ne: False
    show ?thesis
    proof (cases "code = ScanEndObject \<or> code = ScanEndArray")
      case True
      show ?thesis
      proof (cases "code' = ScanEnd")
        case True
        with \<open>code = ScanEndObject \<or> code = ScanEndArray\<close> Cons.prems(2) st ev show ?thesis
          by auto
      next
        case False
        with True ok ev have s'': "s'' = s'" "scanning s'" by (auto simp: step_ok_def)
        from False True Cons.prems(2) st ev s''
        have "readValue_loop buf s' cs (p + 1) = Inr n" by auto
        from Cons.IH[OF s''(2) this] show ?thesis by simp
      qed
    next
      case False
      show ?thesis
      proof (cases "code = ScanError")
        case True
        with ok have "scan_err s' \<noteq> None" by (simp add: step_ok_def)
        with True Cons.prems(2) st show ?thesis by auto
      next
        case ner: False
        with ne False ok have sc: "scanning s'" by (simp add: step_ok_def)
        from ne False ner Cons.prems(2) st
        have "readValue_loop buf s' cs (p + 1) = Inr n" by simp
        from Cons.IH[OF sc this] show ?thesis by simp
      qed
    qed
  qed
qed

lemma readValue_loop_prefix:
  "scanning s \<Longrightarrow> readValue_loop buf s cs p = Inr n \<Longrightarrow> n < p + length cs \<Longrightarrow>
   readValue_loop buf' s (take (Suc n - p) cs @ rest) p = Inr n"
proof (induction cs arbitrary: s p)
  case Nil
  then show ?case by (simp split: if_splits)
next
  case (Cons c cs)
  obtain code s' where st: "scanner_step s c = (code, s')" by (cases "scanner_step s c")
  obtain code' s'' where ev: "stateEndValue s' (CHR '' '') = (code', s'')"
    by (cases "stateEndValue s' (CHR '' '')")
  from step_ok_step[OF Cons.prems(1), of c] st have ok: "step_ok c (code, s')" by simp
  from readValue_loop_bounds[OF Cons.prems(1,2)] have pn: "p \<le> n" by simp
  then have tk: "take (Suc n - p) (c # cs) = c # take (n - p) cs"
    by (simp add: Suc_diff_le)
  show ?case
  proof (cases "code = ScanEnd")
    case True
    with st show ?thesis using Cons.prems(2) unfolding tk by simp
  next
    case ne: False
    show ?thesis
    proof (cases "code = ScanEndObject \<or> code = ScanEndArray")
      case True
      show ?thesis
      proof (cases "code' = ScanEnd")
        case True
        with \<open>code = ScanEndObject \<or> code = ScanEndArray\<close> st ev Cons.prems(2) show ?thesis
          unfolding tk by auto
      next
        case False
        with True ok ev have s'': "s'' = s'" "scanning s'" by (auto simp: step_ok_def)
        from False True Cons.prems(2) st ev s''
        have r: "readValue_loop buf s' cs (p + 1) = Inr n" by auto
        from readValue_loop_bounds[OF s''(2) r] have pn': "p + 1 \<le> n" by simp
        then have e: "n - p = Suc n - (p + 1)" by simp
        from Cons.prems(3) have "n < p + 1 + length cs" by simp
        from Cons.IH[OF s''(2) r this]
        have "readValue_loop buf' s' (take (n - p) cs @ rest) (p + 1) = Inr n"
          unfolding e .
        with False True st ev s'' show ?thesis unfolding tk by auto
      qed
    next
      case False
      show ?thesis
      proof (cases "code = ScanError")
        case True
        with ok have "scan_err s' \<noteq> None" by (simp add: step_ok_def)
        with True Cons.prems(2) st show ?thesis by auto
      next
        case ner: False
        with ne False ok have sc: "scanning s'" by (simp add: step_ok_def)
        from ne False ner Cons.prems(2) st
        have r: "readValue_loop buf s' cs (p + 1) = Inr n" by simp
        from readValue_loop_bounds[OF sc r] have pn': "p + 1 \<le> n" by simp
        then have e: "n - p = Suc n - (p + 1)" by simp
        from Cons.prems(3) have "n < p + 1 + length cs" by simp
        from Cons.IH[OF sc r this]
        have "readValue_loop buf' s' (take (n - p) cs @ rest) (p + 1) = Inr n"
          unfolding e .
        with ne False ner st show ?thesis unfolding tk by simp
      qed
    qed
  qed
qed

lemma checkValid_readValue_loop:
  "scanning s \<Longrightarrow> checkValid_loop s cs \<Longrightarrow> \<exists>n. readValue_loop buf s cs p = Inr n"
proof (induction cs arbitrary: s p)
  case Nil
  obtain code s' where st: "scanner_step s (CHR '' '') = (code, s')"
    by (cases "scanner_step s (CHR '' '')")
  from step_ok_step[OF Nil.prems(1), of "CHR '' ''"] st
  have ok: "step_ok (CHR '' '') (code, s')" by simp
  from Nil.prems st have "endTop s'"
    by (auto simp: scanner_eof_def scanning_def split: if_splits)
  with ok have "code = ScanEnd"
    by (auto simp: step_ok_def scanning_def isSpace_def)
  with st show ?case by simp
next
  case (Cons c cs)
  obtain code s' where st: "scanner_step s c = (code, s')" by (cases "scanner_step s c")
  obtain code' s'' where ev: "stateEndValue s' (CHR '' '') = (code', s'')"
    by (cases "stateEndValue s' (CHR '' '')")
  from step_ok_step[OF Cons.prems(1), of c] st have ok: "step_ok c (code, s')" by simp
  from Cons.prems(2) st have ner: "code \<noteq> ScanError" and v: "checkValid_loop s' cs"
    by (auto split: if_splits)
  show ?case
  proof (cases "code = ScanEnd")
    case True
    with st show ?thesis by simp
  next
    case ne: False
    show ?thesis
    proof (cases "code = ScanEndObject \<or> code = ScanEndArray")
      case True
      show ?thesis
      proof (cases "code' = ScanEnd")
        case True
        with \<open>code = ScanEndObject \<or> code = ScanEndArray\<close> st ev show ?thesis by auto
      next
        case False
        with True ok ev have s'': "s'' = s'" "scanning s'" by (auto simp: step_ok_def)
        from Cons.IH[OF s''(2) v, of "p + 1"] False True st ev s'' show ?thesis by auto
      qed
    next
      case False
      with ne ner ok have sc: "scanning s'" by (simp add: step_ok_def)
      from Cons.IH[OF sc v, of "p + 1"] ne False ner st show ?thesis by simp
    qed
  qed
qed

lemma Valid_readValue: "Valid body \<Longrightarrow> \<exists>n. readValue body = Inr n"
  unfolding Valid_def readValue_def by (rule checkValid_readValue_loop[OF scanning_reset])

lemma readValue_le: "readValue body = Inr n \<Longrightarrow> n \<le> length body"
  unfolding readValue_def using readValue_loop_bounds[OF scanning_reset] by fastforce

lemma readValue_prefix:
  assumes "readValue body = Inr n" "n < length body"
  shows "readValue (take (Suc n) body @ rest) = Inr n"
  using readValue_loop_prefix[OF scanning_reset, of body body 0 n "take (Suc n) body @ rest" rest]
    assms
  by (simp add: readValue_def)

text \<open>
  Claim C5, amended. The bulk handler checks in this order, each check ending the call: a
  method other than POST gives 405; a body the decoder rejects gives 400; a request
  with no URL gives 400; one with more than 100 URLs gives 400; an action other than
  \<open>show\<close> gives 400; every one of these leaves the store as it was and makes no access
  to it. A request with 1 to 100 URLs and the action \<open>show\<close> looks up each URL and
  saves one batch, answering with the number of overrides or with 500 when the save
  fails. Whenever the handler accessed the store, the request passed all checks.
  With the decoder of the handler: an empty body, or one of spaces only, gives 400 with
  \<open>EOF\<close>; a body whose first JSON value is malformed or cut short gives 400 with the
  error of the scanner; otherwise the answer is the one for the bytes of the first
  value alone, and nothing behind the byte that follows the first value has any
  influence on where that value ends. A body that is valid JSON as a whole always passes
  the scanner.
\<close>

theorem BulkDiscoveredAppsHandler_validation:
  "(meth \<noteq> ''POST'' \<longrightarrow>
      BulkDiscoveredAppsHandler decode saveBatch rawApps store meth body
        = (HttpError 405 ''Method not allowed'', store, [])) \<and>
   (meth = ''POST'' \<and> decode body = Inl err \<longrightarrow>
      BulkDiscoveredAppsHandler decode saveBatch rawApps store meth body
        = (HttpError 400 (''Invalid JSON: '' @ err), store, [])) \<and>
   (meth = ''POST'' \<and> decode body = Inr req \<and> length (req_URLs req) = 0 \<longrightarrow>
      BulkDiscoveredAppsHandler decode saveBatch rawApps store meth body
        = (HttpError 400 ''No URLs provided'', store, [])) \<and>
   (meth = ''POST'' \<and> decode body = Inr req \<and> length (req_URLs req) > 100 \<longrightarrow>
      BulkDiscoveredAppsHandler decode saveBatch rawApps store meth body
        = (HttpError 400 ''Too many URLs (max 100)'', store, [])) \<and>
   (meth = ''POST'' \<and> decode body = Inr req \<and> 0 < length (req_URLs req) \<and>
    length (req_URLs req) \<le> 100 \<and> req_Action req \<noteq> ''show'' \<longrightarrow>
      BulkDiscoveredAppsHandler decode saveBatch rawApps store meth body
        = (HttpError 400 (''Invalid action: '' @ req_Action req), store, [])) \<and>
   (meth = ''POST'' \<and> decode body = Inr req \<and> 0 < length (req_URLs req) \<and>
    length (req_URLs req) \<le> 100 \<and> req_Action req = ''show'' \<longrightarrow>
      snd (snd (BulkDiscoveredAppsHandler decode saveBatch rawApps store meth body))
        = map Lookup (req_URLs req) @
          [SaveBatch (map (bulk_override store (urlToSource_of rawApps Map.empty) req) (req_URLs req))] \<and>
      (fst (BulkDiscoveredAppsHandler decode saveBatch rawApps store meth body)
         = BulkOk (length (req_URLs req)) \<or>
       (\<exists>e. fst (BulkDiscoveredAppsHandler decode saveBatch rawApps store meth body)
         = HttpError 500 (''Failed to save: '' @ e)))) \<and>
   (snd (snd (BulkDiscoveredAppsHandler decode saveBatch rawApps store meth body)) \<noteq> [] \<longrightarrow>
      meth = ''POST'' \<and>
      (\<exists>r. decode body = Inr r \<and> 0 < length (req_URLs r) \<and> length (req_URLs r) \<le> 100 \<and>
           req_Action r = ''show'')) \<and>
   (list_all isSpace body \<longrightarrow>
      BulkDiscoveredAppsHandler (Decode quoteChar unmarshal) saveBatch rawApps store ''POST'' body
        = (HttpError 400 ''Invalid JSON: EOF'', store, [])) \<and>
   (readValue body = Inl derr \<longrightarrow>
      BulkDiscoveredAppsHandler (Decode quoteChar unmarshal) saveBatch rawApps store ''POST'' body
        = (HttpError 400 (''Invalid JSON: '' @ Error_text quoteChar derr), store, [])) \<and>
   (readValue body = Inr n \<longrightarrow>
      n \<le> length body \<and>
      BulkDiscoveredAppsHandler (Decode quoteChar unmarshal) saveBatch rawApps store meth body
        = BulkDiscoveredAppsHandler unmarshal saveBatch rawApps store meth (take n body)) \<and>
   (readValue body = Inr n \<and> n < length body \<longrightarrow>
      readValue (take (Suc n) body @ rest) = Inr n) \<and>
   (Valid body \<longrightarrow> (\<exists>k. readValue body = Inr k))"
proof (intro conjI impI)
  assume "meth \<noteq> ''POST''"
  then show "BulkDiscoveredAppsHandler decode saveBatch rawApps store meth body
        = (HttpError 405 ''Method not allowed'', store, [])"
    by (simp add: BulkDiscoveredAppsHandler_def)
next
  assume "meth = ''POST'' \<and> decode body = Inl err"
  then show "BulkDiscoveredAppsHandler decode saveBatch rawApps store meth body
        = (HttpError 400 (''Invalid JSON: '' @ err), store, [])"
    by (simp add: BulkDiscoveredAppsHandler_def)
next
  assume "meth = ''POST'' \<and> decode body = Inr req \<and> length (req_URLs req) = 0"
  then show "BulkDiscoveredAppsHandler decode saveBatch rawApps store meth body
        = (HttpError 400 ''No URLs provided'', store, [])"
    by (simp add: BulkDiscoveredAppsHandler_def)
next
  assume "meth = ''POST'' \<and> decode body = Inr req \<and> length (req_URLs req) > 100"
  then show "BulkDiscoveredAppsHandler decode saveBatch rawApps store meth body
        = (HttpError 400 ''Too many URLs (max 100)'', store, [])"
    by (auto simp: BulkDiscoveredAppsHandler_def maxBulkURLs_def)
next
  assume "meth = ''POST'' \<and> decode body = Inr req \<and> 0 < length (req_URLs req) \<and>
    length (req_URLs req) \<le> 100 \<and> req_Action req \<noteq> ''show''"
  then show "BulkDiscoveredAppsHandler decode saveBatch rawApps store meth body
        = (HttpError 400 (''Invalid action: '' @ req_Action req), store, [])"
    by (auto simp: BulkDiscoveredAppsHandler_def maxBulkURLs_def)
next
  assume a: "meth = ''POST'' \<and> decode body = Inr req \<and> 0 < length (req_URLs req) \<and>
    length (req_URLs req) \<le> 100 \<and> req_Action req = ''show''"
  obtain e s' where sb: "saveBatch store
      (map (bulk_override store (urlToSource_of rawApps Map.empty) req) (req_URLs req)) = (e, s')"
    by (cases "saveBatch store
      (map (bulk_override store (urlToSource_of rawApps Map.empty) req) (req_URLs req))")
  from a sb show "snd (snd (BulkDiscoveredAppsHandler decode saveBatch rawApps store meth body))
        = map Lookup (req_URLs req) @
          [SaveBatch (map (bulk_override store (urlToSource_of rawApps Map.empty) req) (req_URLs req))]"
    by (cases e) (auto simp: BulkDiscoveredAppsHandler_def maxBulkURLs_def Let_def)
  from a sb show "fst (BulkDiscoveredAppsHandler decode saveBatch rawApps store meth body)
         = BulkOk (length (req_URLs req)) \<or>
       (\<exists>e. fst (BulkDiscoveredAppsHandler decode saveBatch rawApps store meth body)
         = HttpError 500 (''Failed to save: '' @ e))"
    by (cases e) (auto simp: BulkDiscoveredAppsHandler_def maxBulkURLs_def Let_def)
next
  assume n: "snd (snd (BulkDiscoveredAppsHandler decode saveBatch rawApps store meth body)) \<noteq> []"
  then show m: "meth = ''POST''"
    by (cases "meth = ''POST''") (simp_all add: BulkDiscoveredAppsHandler_def)
  from n m show "\<exists>r. decode body = Inr r \<and> 0 < length (req_URLs r) \<and> length (req_URLs r) \<le> 100 \<and>
           req_Action r = ''show''"
    by (cases "decode body")
       (auto simp: BulkDiscoveredAppsHandler_def maxBulkURLs_def split: if_splits)
next
  assume "list_all isSpace body"
  then have "readValue body = Inl EOF" by (rule readValue_spaces)
  then show "BulkDiscoveredAppsHandler (Decode quoteChar unmarshal) saveBatch rawApps store ''POST'' body
        = (HttpError 400 ''Invalid JSON: EOF'', store, [])"
    by (simp add: BulkDiscoveredAppsHandler_def Decode_def Error_text_def)
next
  assume "readValue body = Inl derr"
  then show "BulkDiscoveredAppsHandler (Decode quoteChar unmarshal) saveBatch rawApps store ''POST'' body
        = (HttpError 400 (''Invalid JSON: '' @ Error_text quoteChar derr), store, [])"
    by (simp add: BulkDiscoveredAppsHandler_def Decode_def)
next
  assume r: "readValue body = Inr n"
  then show "n \<le> length body" by (rule readValue_le)
  from r show "BulkDiscoveredAppsHandler (Decode quoteChar unmarshal) saveBatch rawApps store meth body
        = BulkDiscoveredAppsHandler unmarshal saveBatch rawApps store meth (take n body)"
    by (simp add: BulkDiscoveredAppsHandler_def Decode_def)
next
  assume "readValue body = Inr n \<and> n < length body"
  then show "readValue (take (Suc n) body @ rest) = Inr n"
    using readValue_prefix by blast
next
  assume "Valid body"
  then show "\<exists>k. readValue body = Inr k" by (rule Valid_readValue)
qed

theorem BulkDiscoveredAppsHandler_validation_witness:
  "BulkDiscoveredAppsHandler (decode_one ''{}'' (show_request 100)) save_all [] Map.empty ''GET'' ''{}''
     = (HttpError 405 ''Method not allowed'', Map.empty, []) \<and>
   BulkDiscoveredAppsHandler (decode_one ''{}'' (show_request 100)) save_all [] Map.empty ''POST'' ''''
     = (HttpError 400 ''Invalid JSON: EOF'', Map.empty, []) \<and>
   BulkDiscoveredAppsHandler (decode_one ''{}'' (show_request 0)) save_all [] Map.empty ''POST'' ''{}''
     = (HttpError 400 ''No URLs provided'', Map.empty, []) \<and>
   BulkDiscoveredAppsHandler (decode_one ''{}'' (show_request 101)) save_all [] Map.empty ''POST'' ''{}''
     = (HttpError 400 ''Too many URLs (max 100)'', Map.empty, []) \<and>
   BulkDiscoveredAppsHandler (decode_one ''{}'' ((show_request 100)\<lparr>req_Action := ''hide''\<rparr>))
       save_all [] Map.empty ''POST'' ''{}''
     = (HttpError 400 ''Invalid action: hide'', Map.empty, []) \<and>
   fst (BulkDiscoveredAppsHandler (decode_one ''{}'' (show_request 100)) save_all [] Map.empty
          ''POST'' ''{}'') = BulkOk 100 \<and>
   length (snd (snd (BulkDiscoveredAppsHandler (decode_one ''{}'' (show_request 100)) save_all []
          Map.empty ''POST'' ''{}''))) = 101 \<and>
   BulkDiscoveredAppsHandler (Decode quote_printable (decode_one show_body (show_request 1)))
       save_all [] Map.empty ''POST'' ''''
     = (HttpError 400 ''Invalid JSON: EOF'', Map.empty, []) \<and>
   BulkDiscoveredAppsHandler (Decode quote_printable (decode_one show_body (show_request 1)))
       save_all [] Map.empty ''POST'' ''invalid json''
     = (HttpError 400
          (''Invalid JSON: invalid character '' @ [CHR 0x27] @ ''i'' @ [CHR 0x27] @
           '' looking for beginning of value''), Map.empty, []) \<and>
   readValue trailing_text_body = Inr 65 \<and> take 65 trailing_text_body = show_body \<and>
   BulkDiscoveredAppsHandler (Decode quote_printable (decode_one show_body (show_request 1)))
       save_all [] Map.empty ''POST'' trailing_text_body
     = BulkDiscoveredAppsHandler (decode_one show_body (show_request 1))
         save_all [] Map.empty ''POST'' show_body \<and>
   readValue (take 66 trailing_text_body @ '', more text'') = Inr 65 \<and>
   Valid show_body \<and> (\<exists>k. readValue show_body = Inr k)"
proof -
  note T = BulkDiscoveredAppsHandler_validation
  note c7 = conjunct2[THEN conjunct2, THEN conjunct2, THEN conjunct2, THEN conjunct2,
      THEN conjunct2, THEN conjunct2]
  have a: "BulkDiscoveredAppsHandler (decode_one ''{}'' (show_request 100)) save_all [] Map.empty ''GET'' ''{}''
     = (HttpError 405 ''Method not allowed'', Map.empty, [])"
    using T[where meth="''GET''"] by simp
  have b: "BulkDiscoveredAppsHandler (decode_one ''{}'' (show_request 100)) save_all [] Map.empty ''POST'' ''''
     = (HttpError 400 ''Invalid JSON: EOF'', Map.empty, [])"
    using T[where meth="''POST''" and decode="decode_one ''{}'' (show_request 100)"
        and body="''''" and err="''EOF''"]
    by (simp add: decode_one_def)
  have c: "BulkDiscoveredAppsHandler (decode_one ''{}'' (show_request 0)) save_all [] Map.empty ''POST'' ''{}''
     = (HttpError 400 ''No URLs provided'', Map.empty, [])"
    using T[where meth="''POST''" and decode="decode_one ''{}'' (show_request 0)"
        and body="''{}''" and req="show_request 0"]
    by (simp add: decode_one_def show_request_def)
  have d: "BulkDiscoveredAppsHandler (decode_one ''{}'' (show_request 101)) save_all [] Map.empty ''POST'' ''{}''
     = (HttpError 400 ''Too many URLs (max 100)'', Map.empty, [])"
    using T[where meth="''POST''" and decode="decode_one ''{}'' (show_request 101)"
        and body="''{}''" and req="show_request 101"]
    by (simp add: decode_one_def show_request_def)
  have e: "BulkDiscoveredAppsHandler (decode_one ''{}'' ((show_request 100)\<lparr>req_Action := ''hide''\<rparr>))
       save_all [] Map.empty ''POST'' ''{}''
     = (HttpError 400 ''Invalid action: hide'', Map.empty, [])"
    using T[where meth="''POST''"
        and decode="decode_one ''{}'' ((show_request 100)\<lparr>req_Action := ''hide''\<rparr>)"
        and body="''{}''" and req="(show_request 100)\<lparr>req_Action := ''hide''\<rparr>"]
    by (simp add: decode_one_def show_request_def)
  have f: "snd (snd (BulkDiscoveredAppsHandler (decode_one ''{}'' (show_request 100)) save_all []
          Map.empty ''POST'' ''{}''))
      = map Lookup (req_URLs (show_request 100)) @
          [SaveBatch (map (bulk_override Map.empty (urlToSource_of [] Map.empty) (show_request 100))
             (req_URLs (show_request 100)))]"
    using T[where meth="''POST''" and decode="decode_one ''{}'' (show_request 100)"
        and body="''{}''" and req="show_request 100" and saveBatch=save_all and rawApps="[]"
        and store=Map.empty]
    by (simp add: decode_one_def show_request_def)
  have g: "fst (BulkDiscoveredAppsHandler (decode_one ''{}'' (show_request 100)) save_all [] Map.empty
          ''POST'' ''{}'') = BulkOk 100"
    by (simp add: BulkDiscoveredAppsHandler_def decode_one_def show_request_def save_all_def
        maxBulkURLs_def Let_def)
  have h: "length (snd (snd (BulkDiscoveredAppsHandler (decode_one ''{}'' (show_request 100)) save_all []
          Map.empty ''POST'' ''{}''))) = 101"
    unfolding f by (simp add: show_request_def)
  have i: "BulkDiscoveredAppsHandler (Decode quote_printable (decode_one show_body (show_request 1)))
       save_all [] Map.empty ''POST'' ''''
     = (HttpError 400 ''Invalid JSON: EOF'', Map.empty, [])"
    using T[where body="''''", THEN c7, THEN conjunct1] by simp
  have j0: "readValue ''invalid json''
      = Inl (SyntaxError (CHR ''i'') ''looking for beginning of value'')"
    by code_simp
  have j: "BulkDiscoveredAppsHandler (Decode quote_printable (decode_one show_body (show_request 1)))
       save_all [] Map.empty ''POST'' ''invalid json''
     = (HttpError 400
          (''Invalid JSON: invalid character '' @ [CHR 0x27] @ ''i'' @ [CHR 0x27] @
           '' looking for beginning of value''), Map.empty, [])"
    using T[where body="''invalid json''" and quoteChar=quote_printable
        and derr="SyntaxError (CHR ''i'') ''looking for beginning of value''",
        THEN c7, THEN conjunct2, THEN conjunct1, rule_format, OF j0]
    by (simp add: Error_text_def quote_printable_def)
  have k0: "readValue trailing_text_body = Inr 65" by code_simp
  have k1: "take 65 trailing_text_body = show_body" by code_simp
  have k: "BulkDiscoveredAppsHandler (Decode quote_printable (decode_one show_body (show_request 1)))
       save_all [] Map.empty ''POST'' trailing_text_body
     = BulkDiscoveredAppsHandler (decode_one show_body (show_request 1))
         save_all [] Map.empty ''POST'' show_body"
    using T[where body=trailing_text_body and n=65,
        THEN c7, THEN conjunct2, THEN conjunct2, THEN conjunct1, rule_format, OF k0, THEN conjunct2]
    unfolding k1 .
  have l00: "65 < length trailing_text_body" by code_simp
  have l0: "readValue trailing_text_body = Inr 65 \<and> 65 < length trailing_text_body"
    using k0 l00 by (intro conjI)
  have l1: "Suc 65 = 66" by simp
  have l: "readValue (take 66 trailing_text_body @ '', more text'') = Inr 65"
    using T[where body=trailing_text_body and n=65 and rest="'', more text''",
        THEN c7, THEN conjunct2, THEN conjunct2, THEN conjunct2, THEN conjunct1, rule_format, OF l0]
    unfolding l1 .
  have m0: "Valid show_body" by code_simp
  have m: "\<exists>k. readValue show_body = Inr k"
    using T[where body=show_body,
        THEN c7, THEN conjunct2, THEN conjunct2, THEN conjunct2, THEN conjunct2, rule_format, OF m0] .
  show ?thesis
    by (intro conjI) (fact a b c d e g h i j k0 k1 k l m0 m)+
qed

text \<open>
  Claim C5 has every syntactically invalid JSON body answered with 400. The decoder
  reads the first JSON value of the body and leaves the rest unread: the body
  \<open>trailing_text_body\<close>, a well-formed request followed by \<open>}}} not json\<close>, is not
  valid JSON, and the handler carries the request out and answers with the count 1.
\<close>

theorem invalid_JSON_body_accepted:
  "\<not> Valid trailing_text_body \<and>
   fst (BulkDiscoveredAppsHandler (Decode quote_printable (decode_one show_body (show_request 1)))
          save_all [] Map.empty ''POST'' trailing_text_body) = BulkOk 1 \<and>
   snd (snd (BulkDiscoveredAppsHandler
               (Decode quote_printable (decode_one show_body (show_request 1)))
               save_all [] Map.empty ''POST'' trailing_text_body))
     = [Lookup ''https://app.local'',
        SaveBatch [\<lparr>ov_URL = ''https://app.local'', ov_Source = '''', ov_Hidden = False,
                    ov_Category = ''Media'', ov_Groups = [], ov_Name = '''', ov_Icon = ''''\<rparr>]]"
proof -
  have v: "\<not> Valid trailing_text_body" by code_simp
  have r: "readValue trailing_text_body = Inr 65" by code_simp
  have t: "take 65 trailing_text_body = show_body" by code_simp
  have d: "Decode quote_printable (decode_one show_body (show_request 1)) trailing_text_body
           = Inr (show_request 1)"
    by (simp add: Decode_def r t decode_one_def)
  have f: "fst (BulkDiscoveredAppsHandler (Decode quote_printable (decode_one show_body (show_request 1)))
          save_all [] Map.empty ''POST'' trailing_text_body) = BulkOk 1"
    unfolding BulkDiscoveredAppsHandler_def d
    by (simp add: show_request_def save_all_def maxBulkURLs_def Let_def)
  have g: "snd (snd (BulkDiscoveredAppsHandler
               (Decode quote_printable (decode_one show_body (show_request 1)))
               save_all [] Map.empty ''POST'' trailing_text_body))
     = [Lookup ''https://app.local'',
        SaveBatch [\<lparr>ov_URL = ''https://app.local'', ov_Source = '''', ov_Hidden = False,
                    ov_Category = ''Media'', ov_Groups = [], ov_Name = '''', ov_Icon = ''''\<rparr>]]"
    unfolding BulkDiscoveredAppsHandler_def d
    by (simp add: show_request_def save_all_def maxBulkURLs_def Let_def bulk_override_def)
  from v f g show ?thesis by (intro conjI)
qed

section \<open>Active and stale views\<close>


lemma stale_loop_concat:
  "stale_loop store act order acc =
     acc @ concat (map (\<lambda>u. case store u of None \<Rightarrow> []
                              | Some ov \<Rightarrow> if u \<notin> act then [ov] else []) order)"
  by (induction order arbitrary: acc) (auto split: option.splits)

lemma set_stale_loop:
  "set (stale_loop store act order []) =
     {ov. \<exists>u \<in> set order. store u = Some ov \<and> u \<notin> act}"
  by (auto simp: stale_loop_concat split: option.splits if_splits)

lemma GET_response:
  "AdminDiscoveredAppsHandler decode db_save db_delete order rawApps store ''GET'' body q
   = (ActiveStale rawApps (stale_loop store (URL ` set rawApps) order []), store)"
  by (simp add: AdminDiscoveredAppsHandler_def Let_def)

text \<open>
  Claim C4. For every order in which the runtime ranges over the override map: the GET
  branch leaves the store as it was; every override of the store whose URL is not
  among the URLs of the live aggregate is in the stale list, and no active entry has
  its URL; the stale list holds exactly those overrides. No method but PUT and DELETE
  changes the store.
\<close>

theorem AdminDiscoveredAppsHandler_stale:
  assumes "ranges_over order store"
  shows
   "snd (AdminDiscoveredAppsHandler decode db_save db_delete order rawApps store ''GET'' body q)
      = store \<and>
    (\<forall>u ov. store u = Some ov \<and> u \<notin> URL ` set rawApps \<longrightarrow>
       ov \<in> set (stale_of (fst (AdminDiscoveredAppsHandler decode db_save db_delete order rawApps
                                   store ''GET'' body q))) \<and>
       u \<notin> URL ` set (active_of (fst (AdminDiscoveredAppsHandler decode db_save db_delete order
                                   rawApps store ''GET'' body q)))) \<and>
    set (stale_of (fst (AdminDiscoveredAppsHandler decode db_save db_delete order rawApps
                                   store ''GET'' body q)))
      = {ov. \<exists>u. store u = Some ov \<and> u \<notin> URL ` set rawApps} \<and>
    (meth \<noteq> ''PUT'' \<and> meth \<noteq> ''DELETE'' \<longrightarrow>
       snd (AdminDiscoveredAppsHandler decode db_save db_delete order rawApps store meth body q)
         = store)"
proof -
  have dom: "set order = dom store" using assms by (simp add: ranges_over_def)
  have st: "set (stale_loop store (URL ` set rawApps) order [])
      = {ov. \<exists>u. store u = Some ov \<and> u \<notin> URL ` set rawApps}"
    unfolding set_stale_loop using dom by auto
  show ?thesis
    unfolding GET_response
    by (auto simp: st stale_of_def active_of_def AdminDiscoveredAppsHandler_def)
qed

theorem AdminDiscoveredAppsHandler_stale_witness:
  "ranges_over [''http://old.lan'', ''http://plex.lan'']
     [''http://plex.lan'' \<mapsto> mkOverride ''http://plex.lan'' ''Films'' False,
      ''http://old.lan'' \<mapsto> mkOverride ''http://old.lan'' ''Old'' True] \<and>
   AdminDiscoveredAppsHandler (decode_one '''' (mkOverride '''' '''' False)) save_one delete_one
     [''http://old.lan'', ''http://plex.lan''] [mkRaw ''Plex'' ''http://plex.lan'' ''docker'']
     [''http://plex.lan'' \<mapsto> mkOverride ''http://plex.lan'' ''Films'' False,
      ''http://old.lan'' \<mapsto> mkOverride ''http://old.lan'' ''Old'' True] ''GET'' '''' ''''
   = (ActiveStale [mkRaw ''Plex'' ''http://plex.lan'' ''docker'']
                  [mkOverride ''http://old.lan'' ''Old'' True],
      [''http://plex.lan'' \<mapsto> mkOverride ''http://plex.lan'' ''Films'' False,
       ''http://old.lan'' \<mapsto> mkOverride ''http://old.lan'' ''Old'' True])"
proof -
  let ?store = "[''http://plex.lan'' \<mapsto> mkOverride ''http://plex.lan'' ''Films'' False,
      ''http://old.lan'' \<mapsto> mkOverride ''http://old.lan'' ''Old'' True]"
  let ?H = "AdminDiscoveredAppsHandler (decode_one '''' (mkOverride '''' '''' False)) save_one
     delete_one [''http://old.lan'', ''http://plex.lan'']
     [mkRaw ''Plex'' ''http://plex.lan'' ''docker''] ?store ''GET'' '''' ''''"
  have ro: "ranges_over [''http://old.lan'', ''http://plex.lan''] ?store"
    by (auto simp: ranges_over_def)
  from AdminDiscoveredAppsHandler_stale[OF ro, of "decode_one '''' (mkOverride '''' '''' False)"
      save_one delete_one "[mkRaw ''Plex'' ''http://plex.lan'' ''docker'']" "''''" "''''" "''GET''"]
  have s: "snd ?H = ?store" by blast
  have f: "fst ?H = ActiveStale [mkRaw ''Plex'' ''http://plex.lan'' ''docker'']
                  [mkOverride ''http://old.lan'' ''Old'' True]"
    by (simp add: AdminDiscoveredAppsHandler_def Let_def mkRaw_def)
  have "?H = (fst ?H, snd ?H)" by simp
  then have "?H = (ActiveStale [mkRaw ''Plex'' ''http://plex.lan'' ''docker'']
                  [mkOverride ''http://old.lan'' ''Old'' True], ?store)"
    unfolding f s .
  with ro show ?thesis by blast
qed

text \<open>
  Claim C3 asks that an active entry whose URL has an override carries the override's
  values. It does not: with a live application named \<open>Plex\<close> and an override that
  renames it \<open>Films\<close> and hides it, the active entry is the discovered record, named
  \<open>Plex\<close>.
\<close>

theorem AdminDiscoveredAppsHandler_active_not_annotated:
  "\<not> (\<forall>decode db_save db_delete order rawApps store body q a ov.
        ranges_over order store \<and>
        a \<in> set (active_of (fst (AdminDiscoveredAppsHandler decode db_save db_delete order rawApps
                                   store ''GET'' body q))) \<and>
        store (URL a) = Some ov
        \<longrightarrow> Name a = ov_Name ov)"
proof
  assume h: "\<forall>decode db_save db_delete order rawApps store body q a ov.
        ranges_over order store \<and>
        a \<in> set (active_of (fst (AdminDiscoveredAppsHandler decode db_save db_delete order rawApps
                                   store ''GET'' body q))) \<and>
        store (URL a) = Some ov
        \<longrightarrow> Name a = ov_Name ov"
  let ?store = "[''http://plex.lan'' \<mapsto> mkOverride ''http://plex.lan'' ''Films'' True]"
  let ?a = "mkRaw ''Plex'' ''http://plex.lan'' ''docker''"
  have 1: "ranges_over [''http://plex.lan''] ?store" by (auto simp: ranges_over_def)
  have 2: "?a \<in> set (active_of (fst (AdminDiscoveredAppsHandler
              (decode_one '''' (mkOverride '''' '''' False)) save_one delete_one
              [''http://plex.lan''] [?a] ?store ''GET'' '''' '''')))"
    by (simp add: AdminDiscoveredAppsHandler_def Let_def active_of_def)
  have 3: "?store (URL ?a) = Some (mkOverride ''http://plex.lan'' ''Films'' True)"
    by (simp add: mkRaw_def)
  from h 1 2 3 have "Name ?a = ov_Name (mkOverride ''http://plex.lan'' ''Films'' True)"
    by blast
  then show False by (simp add: mkRaw_def mkOverride_def)
qed

text \<open>
  Claim C3, amended. The active list of the GET branch is the live aggregate as
  \<open>GetAllRawDiscoveredApps\<close> returned it, one raw source-tagged record per discovered
  application, whatever the override store holds: two stores give the same active
  list. Overrides reach the response only through the stale list.
\<close>

theorem AdminDiscoveredAppsHandler_active_raw:
  "active_of (fst (AdminDiscoveredAppsHandler decode db_save db_delete order rawApps store
                     ''GET'' body q)) = rawApps \<and>
   fst (AdminDiscoveredAppsHandler decode db_save db_delete order rawApps store ''GET'' body q)
     = ActiveStale rawApps (stale_loop store (URL ` set rawApps) order []) \<and>
   active_of (fst (AdminDiscoveredAppsHandler decode db_save db_delete order rawApps store
                     ''GET'' body q))
     = active_of (fst (AdminDiscoveredAppsHandler decode db_save db_delete order' rawApps store'
                         ''GET'' body q))"
  by (simp add: GET_response active_of_def)

theorem AdminDiscoveredAppsHandler_active_raw_witness:
  "active_of (fst (AdminDiscoveredAppsHandler (decode_one '''' (mkOverride '''' '''' False))
      save_one delete_one [''http://plex.lan''] [mkRaw ''Plex'' ''http://plex.lan'' ''docker'']
      [''http://plex.lan'' \<mapsto> mkOverride ''http://plex.lan'' ''Films'' True] ''GET'' '''' ''''))
   = [mkRaw ''Plex'' ''http://plex.lan'' ''docker''] \<and>
   Name (mkRaw ''Plex'' ''http://plex.lan'' ''docker'') = ''Plex''"
proof -
  have a: "active_of (fst (AdminDiscoveredAppsHandler (decode_one [] (mkOverride [] [] False))
      save_one delete_one [''http://plex.lan''] [mkRaw ''Plex'' ''http://plex.lan'' ''docker'']
      [''http://plex.lan'' \<mapsto> mkOverride ''http://plex.lan'' ''Films'' True] ''GET'' [] []))
   = [mkRaw ''Plex'' ''http://plex.lan'' ''docker'']"
    by (rule AdminDiscoveredAppsHandler_active_raw[THEN conjunct1])
  have b: "Name (mkRaw ''Plex'' ''http://plex.lan'' ''docker'') = ''Plex''"
    by (simp add: mkRaw_def)
  from a b show ?thesis by blast
qed

section \<open>Discovery loop supervisor\<close>















































section \<open>URL uniqueness in the collectors\<close>


lemma location_step_inv:
  assumes "seen_inv (seen, apps)"
  shows "seen_inv (fst (location_step env protocol validHost (seen, apps, found) loc),
                   fst (snd (location_step env protocol validHost (seen, apps, found) loc)))"
  using assms
  by (cases loc)
     (auto simp: location_step_def seen_inv_def Let_def split: option.splits if_splits)

lemma foldl_location_step_inv:
  assumes "seen_inv (fst st, fst (snd st))"
  shows "seen_inv (fst (foldl (location_step env protocol validHost) st locs),
                   fst (snd (foldl (location_step env protocol validHost) st locs)))"
  using assms
proof (induction locs arbitrary: st)
  case Nil
  then show ?case by simp
next
  case (Cons loc locs)
  obtain seen apps found where st: "st = (seen, apps, found)" by (cases st) auto
  have "seen_inv (fst (location_step env protocol validHost st loc),
                  fst (snd (location_step env protocol validHost st loc)))"
    using location_step_inv[of seen apps env protocol validHost found loc] Cons.prems st by simp
  from Cons.IH[OF this] show ?case by simp
qed

lemma fallback_step_inv:
  assumes "seen_inv st"
  shows "seen_inv (fallback_step env protocol validHost serverBlock st)"
  using assms
  by (cases st)
     (auto simp: fallback_step_def seen_inv_def Let_def split: option.splits)

lemma server_block_step_inv:
  assumes "seen_inv st"
  shows "seen_inv (server_block_step env st block)"
proof -
  have g: "seen_inv (case foldl (location_step env protocol validHost)
                           (fst st, snd st, False) locs of
                      (seenURLs, apps, foundLocationApps) \<Rightarrow>
                        if \<not> foundLocationApps then
                          fallback_step env protocol validHost serverBlock (seenURLs, apps)
                        else (seenURLs, apps))"
    for protocol validHost locs serverBlock
  proof -
    obtain s a fl where r: "foldl (location_step env protocol validHost)
                           (fst st, snd st, False) locs = (s, a, fl)"
      by (metis prod_cases3)
    from foldl_location_step_inv[of "(fst st, snd st, False)" env protocol validHost locs] r assms
    have "seen_inv (s, a)" by simp
    then show ?thesis
      unfolding r using fallback_step_inv by simp
  qed
  show ?thesis
    unfolding server_block_step_def Let_def
    using assms g by (simp split: option.splits)
qed

lemma foldl_inv:
  assumes "seen_inv st" "\<And>st x. seen_inv st \<Longrightarrow> seen_inv (f st x)"
  shows "seen_inv (foldl f st xs)"
  using assms(1)
  by (induction xs arbitrary: st) (simp_all add: assms(2))

lemma processConfigFile_inv:
  assumes "seen_inv st"
  shows "seen_inv (processConfigFile env st filePath)"
  unfolding processConfigFile_def Let_def
  using assms foldl_inv[of st "server_block_step env"] server_block_step_inv
  by (simp split: option.splits)

lemma nginx_collect_inv:
  assumes "nginx_collect env configPath = Some st"
  shows "seen_inv st"
proof -
  have i: "seen_inv ({}, [])" by (simp add: seen_inv_def)
  have "seen_inv (foldl (\<lambda>st entry.
                         case entry of (name, entryIsDir) \<Rightarrow>
                           if entryIsDir then st
                           else if isNginxConfigFile name then
                             processConfigFile env st (joinPath env p name)
                           else st)
                       ({}, []) entries)" for p entries
    by (rule foldl_inv[OF i]) (auto simp: processConfigFile_inv)
  with assms show ?thesis
    by (auto simp: nginx_collect_def Let_def split: option.splits if_splits)
qed

lemma host_keep_mset: "mset (host_keep xs) \<subseteq># mset xs"
proof (induction xs rule: rev_induct)
  case Nil
  then show ?case by (simp add: host_keep_Nil)
next
  case (snoc a xs)
  then show ?case
    by (auto simp: host_keep_snoc intro: subset_mset.order_trans)
qed

lemma concat_groups_mset:
  assumes "distinct order" "\<And>h. mset (F h) \<subseteq># mset (host_apps apps h)"
  shows "mset (concat (map F order))
         \<subseteq># mset (filter (\<lambda>a. url_host (URL a) \<in> set order) apps)"
  using assms(1)
proof (induction order)
  case Nil
  then show ?case by simp
next
  case (Cons h hs)
  then have hn: "h \<notin> set hs" and IH: "mset (concat (map F hs))
         \<subseteq># mset (filter (\<lambda>a. url_host (URL a) \<in> set hs) apps)" by simp_all
  have split: "mset (filter (\<lambda>a. url_host (URL a) \<in> set (h # hs)) apps)
      = mset (host_apps apps h) + mset (filter (\<lambda>a. url_host (URL a) \<in> set hs) apps)"
    using hn by (induction apps) (auto simp: host_apps_def)
  have "mset (concat (map F (h # hs))) = mset (F h) + mset (concat (map F hs))" by simp
  also have "\<dots> \<subseteq># mset (host_apps apps h)
                    + mset (filter (\<lambda>a. url_host (URL a) \<in> set hs) apps)"
    using assms(2)[of h] IH by (rule subset_mset.add_mono)
  finally show ?case unfolding split .
qed

lemma distinct_map_submset:
  assumes "mset xs \<subseteq># mset ys" "distinct (map f ys)"
  shows "distinct (map f xs)"
proof -
  have "mset (map f xs) \<subseteq># mset (map f ys)"
    using assms(1) by (simp add: image_mset_subseteq_mono)
  then obtain M where M: "mset (map f ys) = mset (map f xs) + M"
    by (metis subset_mset.le_iff_add)
  obtain us where "mset us = M" using ex_mset by blast
  with M have "mset (map f ys) = mset (map f xs @ us)" by simp
  from mset_eq_imp_distinct_iff[OF this] assms(2) have "distinct (map f xs @ us)" by simp
  then show ?thesis by simp
qed

lemma dedupe_submset:
  assumes "sorts_by_URL_length sortSlice" "ranges_over order (group_byHost apps Map.empty)"
  shows "mset (dedupeAppsByBasePath sortSlice order apps) \<subseteq># mset apps"
proof -
  have d: "distinct order" and s: "set order \<subseteq> dom (group_byHost apps Map.empty)"
    using assms(2) by (simp_all add: ranges_over_def)
  have e: "dedupeAppsByBasePath sortSlice order apps =
     concat (map (\<lambda>h. host_keep (sortSlice (host_apps apps h))) order)"
    by (rule dedupe_concat[OF s])
  have "mset (host_keep (sortSlice (host_apps apps h))) \<subseteq># mset (host_apps apps h)" for h
    using host_keep_mset[of "sortSlice (host_apps apps h)"] assms(1)
    by (simp add: sorts_by_URL_length_def)
  from concat_groups_mset[OF d this]
  have "mset (dedupeAppsByBasePath sortSlice order apps)
        \<subseteq># mset (filter (\<lambda>a. url_host (URL a) \<in> set order) apps)"
    unfolding e .
  also have "\<dots> \<subseteq># mset apps" by simp
  finally show ?thesis .
qed

lemma containers_loop_map_filter:
  "containers_loop env u cs acc = acc @ List.map_filter (container_app env u) cs"
  by (induction cs arbitrary: acc) (auto simp: List.map_filter_simps split: option.splits)

lemma container_app_URL:
  "container_app env u c = Some a \<Longrightarrow>
   URL a = processUnraidWebUIURL (parse_hostname env) (label c ''net.unraid.docker.webui'') u \<and>
   label c ''net.unraid.docker.webui'' \<noteq> ''''"
  by (auto simp: container_app_def Let_def split: if_splits)

lemma containers_loop_URLs:
  "map URL (containers_loop env u cs []) =
     map (\<lambda>c. processUnraidWebUIURL (parse_hostname env) (label c ''net.unraid.docker.webui'') u)
       (filter (\<lambda>c. label c ''net.unraid.docker.webui'' \<noteq> '''') cs)"
proof -
  have "map URL (List.map_filter (container_app env u) cs) =
     map (\<lambda>c. processUnraidWebUIURL (parse_hostname env) (label c ''net.unraid.docker.webui'') u)
       (filter (\<lambda>c. label c ''net.unraid.docker.webui'' \<noteq> '''') cs)"
  proof (induction cs)
    case Nil
    then show ?case by (simp add: List.map_filter_simps)
  next
    case (Cons c cs)
    show ?case
    proof (cases "container_app env u c")
      case None
      then have "label c ''net.unraid.docker.webui'' = ''''"
        by (auto simp: container_app_def Let_def split: if_splits)
      with None Cons show ?thesis by (simp add: List.map_filter_simps)
    next
      case (Some a)
      from container_app_URL[OF Some] Some Cons show ?thesis
        by (simp add: List.map_filter_simps)
    qed
  qed
  then show ?thesis by (simp add: containers_loop_map_filter)
qed

lemma location_step_seen:
  assumes "protocol @ ''://'' @ validHost @ locPath \<in> seen"
  shows "location_step env protocol validHost (seen, apps, found) (locPath, afterBrace)
         = (seen, apps, found)"
  using assms by (simp add: location_step_def Let_def split: option.splits)

lemma fallback_step_seen:
  assumes "protocol @ ''://'' @ validHost \<in> seen"
  shows "fallback_step env protocol validHost serverBlock (seen, apps) = (seen, apps)"
  using assms by (simp add: fallback_step_def Let_def split: option.splits)

lemma queryUnraidContainers_URLs:
  assumes "queryUnraidContainers uenv reply unraidURL = Inr apps"
  shows "\<exists>gql. reply = Reply 200 (Inr gql) \<and>
           map URL apps =
             map (\<lambda>c. processUnraidWebUIURL (parse_hostname uenv)
                         (label c ''net.unraid.docker.webui'') unraidURL)
               (filter (\<lambda>c. label c ''net.unraid.docker.webui'' \<noteq> '''') (Containers gql))"
proof (cases reply)
  case (RequestError e)
  with assms show ?thesis by (simp add: queryUnraidContainers_def split: if_splits)
next
  case (Reply code body)
  show ?thesis
  proof (cases body)
    case (Inl e)
    with assms Reply show ?thesis by (simp add: queryUnraidContainers_def split: if_splits)
  next
    case (Inr gql)
    with assms Reply have c: "code = 200"
      and a: "apps = containers_loop uenv unraidURL (Containers gql) []"
      by (auto simp: queryUnraidContainers_def split: if_splits)
    from a have "map URL apps =
             map (\<lambda>c. processUnraidWebUIURL (parse_hostname uenv)
                         (label c ''net.unraid.docker.webui'') unraidURL)
               (filter (\<lambda>c. label c ''net.unraid.docker.webui'' \<noteq> '''') (Containers gql))"
      by (simp only: containers_loop_URLs)
    with Reply Inr c show ?thesis by blast
  qed
qed

lemma twin_query:
  "queryUnraidContainers plain_unraid_env twin_reply ''http://192.168.1.100'' =
  Inr [\<lparr>Name = ''plex'', URL = ''http://192.168.1.100:32400/web'', Icon = '''',
         Description = ''Discovered via Unraid (image: plexinc/pms-docker)'',
         Status = ''online''\<rparr>,
       \<lparr>Name = ''plex test'', URL = ''http://192.168.1.100:32400/web'', Icon = '''',
         Description = ''Discovered via Unraid (image: plexinc/pms-docker)'',
         Status = ''offline''\<rparr>]"
  by (simp add: queryUnraidContainers_def plain_unraid_env_def twin_reply_def twin_containers_def
      container_app_def label_def Let_def processUnraidWebUIURL_def plain_url_hostname_def
      processUnraidIconURL_def TrimPrefix_def HasPrefix_def dash_underscore_to_space_def)

text \<open>
  Claim C2 has pairwise-distinct URLs in the snapshot of every collector. The Unraid
  collector appends one application per container with a WebUI label and never
  compares URLs: two containers with the same label template give a snapshot with the
  same URL twice.
\<close>

theorem unraid_snapshot_duplicate_URLs:
  "\<not> (\<forall>uenv reply unraidURL apiKey apps s.
        DiscoverUnraidApps_body uenv reply unraidURL apiKey = Result apps \<longrightarrow>
        distinct (map URL (snapshot (SetApps apps s))))"
proof
  assume h: "\<forall>uenv reply unraidURL apiKey apps s.
        DiscoverUnraidApps_body uenv reply unraidURL apiKey = Result apps \<longrightarrow>
        distinct (map URL (snapshot (SetApps apps s)))"
  let ?apps = "[\<lparr>Name = ''plex'', URL = ''http://192.168.1.100:32400/web'', Icon = '''',
         Description = ''Discovered via Unraid (image: plexinc/pms-docker)'',
         Status = ''online''\<rparr>,
       \<lparr>Name = ''plex test'', URL = ''http://192.168.1.100:32400/web'', Icon = '''',
         Description = ''Discovered via Unraid (image: plexinc/pms-docker)'',
         Status = ''offline''\<rparr>]"
  have "DiscoverUnraidApps_body plain_unraid_env twin_reply ''http://192.168.1.100'' ''key''
        = Result ?apps"
    unfolding DiscoverUnraidApps_body_def twin_query by simp
  with h have "distinct (map URL (snapshot (SetApps ?apps init_source)))" by blast
  then show False by (simp add: SetApps_def)
qed

lemma tiny_collect:
  "nginx_collect tiny_nginx_env '''' =
  Some ({''http://media.lan/lidarr'', ''http://media.lan/lidarr/''},
        [lidarr_app ''http://media.lan/lidarr'', lidarr_app ''http://media.lan/lidarr/''])"
  by (simp add: nginx_collect_def tiny_nginx_env_def tiny_include_env_def isNginxConfigFile_def
      HasPrefix_def HasSuffix_def Ext_def skipExtensions_def processConfigFile_def Let_def
      server_block_step_def location_step_def fallback_step_def shouldSkipLocation_def
      hasRegexMetachars_def skipLocationPaths_def skipLocationPatterns_def
      skipLocationSuffixes_def Contains_def TrimRight_def TrimLeft_def extractBlock_def
      lidarr_app_def insert_commute suffix_to_prefix)

text \<open>
  Claim C2, amended. For every function that sorts by URL length and every order of
  the hosts: a run of the Nginx collector that reaches \<open>SetApps\<close> hands it a list with
  pairwise-distinct URLs (the list collected before the sub-path deduplication has
  distinct URLs, all recorded in \<open>seenURLs\<close>, and the deduplication only removes
  entries), and a run that returns early stores nothing; a location or a server-level
  candidate whose URL is already in \<open>seenURLs\<close> leaves the run's state as it was, so
  the first occurrence stays and nothing is merged. The Unraid collector's result has
  one application per container with a non-empty WebUI label, in container order, with
  the processed label as URL, duplicates included.
\<close>

theorem collectors_URL_uniqueness:
  assumes "sorts_by_URL_length sortSlice"
  shows
   "(\<forall>seenURLs apps0.
       nginx_collect env configPath = Some (seenURLs, apps0) \<and>
       ranges_over order (group_byHost apps0 Map.empty) \<longrightarrow>
       distinct (map URL apps0) \<and> URL ` set apps0 \<subseteq> seenURLs \<and>
       DiscoverNginxApps_body env sortSlice order configPath
         = Result (dedupeAppsByBasePath sortSlice order apps0) \<and>
       mset (dedupeAppsByBasePath sortSlice order apps0) \<subseteq># mset apps0 \<and>
       distinct (map URL (dedupeAppsByBasePath sortSlice order apps0)) \<and>
       (\<forall>s. distinct (map URL
               (snapshot (SetApps (dedupeAppsByBasePath sortSlice order apps0) s))))) \<and>
    (nginx_collect env configPath = None \<longrightarrow>
       DiscoverNginxApps_body env sortSlice order configPath = NoResult) \<and>
    (\<forall>protocol validHost seen apps found locPath afterBrace.
       protocol @ ''://'' @ validHost @ locPath \<in> seen \<longrightarrow>
       location_step env protocol validHost (seen, apps, found) (locPath, afterBrace)
         = (seen, apps, found)) \<and>
    (\<forall>protocol validHost serverBlock seen apps.
       protocol @ ''://'' @ validHost \<in> seen \<longrightarrow>
       fallback_step env protocol validHost serverBlock (seen, apps) = (seen, apps)) \<and>
    (\<forall>uenv reply unraidURL apps.
       queryUnraidContainers uenv reply unraidURL = Inr apps \<longrightarrow>
       (\<exists>gql. reply = Reply 200 (Inr gql) \<and>
          map URL apps =
            map (\<lambda>c. processUnraidWebUIURL (parse_hostname uenv)
                        (label c ''net.unraid.docker.webui'') unraidURL)
              (filter (\<lambda>c. label c ''net.unraid.docker.webui'' \<noteq> '''') (Containers gql))))"
proof -
  have a: "\<forall>seenURLs apps0.
       nginx_collect env configPath = Some (seenURLs, apps0) \<and>
       ranges_over order (group_byHost apps0 Map.empty) \<longrightarrow>
       distinct (map URL apps0) \<and> URL ` set apps0 \<subseteq> seenURLs \<and>
       DiscoverNginxApps_body env sortSlice order configPath
         = Result (dedupeAppsByBasePath sortSlice order apps0) \<and>
       mset (dedupeAppsByBasePath sortSlice order apps0) \<subseteq># mset apps0 \<and>
       distinct (map URL (dedupeAppsByBasePath sortSlice order apps0)) \<and>
       (\<forall>s. distinct (map URL
               (snapshot (SetApps (dedupeAppsByBasePath sortSlice order apps0) s))))"
  proof (intro allI impI)
    fix seenURLs apps0
    assume h: "nginx_collect env configPath = Some (seenURLs, apps0) \<and>
       ranges_over order (group_byHost apps0 Map.empty)"
    then have c: "nginx_collect env configPath = Some (seenURLs, apps0)"
      and ro: "ranges_over order (group_byHost apps0 Map.empty)" by blast+
    from nginx_collect_inv[OF c] have d0: "distinct (map URL apps0)"
      and sub: "URL ` set apps0 \<subseteq> seenURLs" by (simp_all add: seen_inv_def)
    have b: "DiscoverNginxApps_body env sortSlice order configPath
         = Result (dedupeAppsByBasePath sortSlice order apps0)"
      using c by (simp add: DiscoverNginxApps_body_def)
    note m = dedupe_submset[OF assms ro]
    from distinct_map_submset[OF m d0]
    have d: "distinct (map URL (dedupeAppsByBasePath sortSlice order apps0))" .
    then have e: "\<forall>s. distinct (map URL
               (snapshot (SetApps (dedupeAppsByBasePath sortSlice order apps0) s)))"
      by (simp add: SetApps_def)
    from d0 sub b m d e
    show "distinct (map URL apps0) \<and> URL ` set apps0 \<subseteq> seenURLs \<and>
       DiscoverNginxApps_body env sortSlice order configPath
         = Result (dedupeAppsByBasePath sortSlice order apps0) \<and>
       mset (dedupeAppsByBasePath sortSlice order apps0) \<subseteq># mset apps0 \<and>
       distinct (map URL (dedupeAppsByBasePath sortSlice order apps0)) \<and>
       (\<forall>s. distinct (map URL
               (snapshot (SetApps (dedupeAppsByBasePath sortSlice order apps0) s))))"
      by (intro conjI)
  qed
  have b: "nginx_collect env configPath = None \<longrightarrow>
       DiscoverNginxApps_body env sortSlice order configPath = NoResult"
    by (simp add: DiscoverNginxApps_body_def)
  have c: "\<forall>protocol validHost seen apps found locPath afterBrace.
       protocol @ ''://'' @ validHost @ locPath \<in> seen \<longrightarrow>
       location_step env protocol validHost (seen, apps, found) (locPath, afterBrace)
         = (seen, apps, found)"
    using location_step_seen by blast
  have d: "\<forall>protocol validHost serverBlock seen apps.
       protocol @ ''://'' @ validHost \<in> seen \<longrightarrow>
       fallback_step env protocol validHost serverBlock (seen, apps) = (seen, apps)"
    using fallback_step_seen by blast
  have e: "\<forall>uenv reply unraidURL apps.
       queryUnraidContainers uenv reply unraidURL = Inr apps \<longrightarrow>
       (\<exists>gql. reply = Reply 200 (Inr gql) \<and>
          map URL apps =
            map (\<lambda>c. processUnraidWebUIURL (parse_hostname uenv)
                        (label c ''net.unraid.docker.webui'') unraidURL)
              (filter (\<lambda>c. label c ''net.unraid.docker.webui'' \<noteq> '''') (Containers gql)))"
    using queryUnraidContainers_URLs by blast
  from a b c d e show ?thesis by (intro conjI)
qed

theorem collectors_URL_uniqueness_witness:
  "sorts_by_URL_length insertion_sortSlice \<and>
   nginx_collect tiny_nginx_env '''' =
     Some ({''http://media.lan/lidarr'', ''http://media.lan/lidarr/''},
           [lidarr_app ''http://media.lan/lidarr'', lidarr_app ''http://media.lan/lidarr/'']) \<and>
   ranges_over [''media.lan'']
     (group_byHost [lidarr_app ''http://media.lan/lidarr'', lidarr_app ''http://media.lan/lidarr/'']
        Map.empty) \<and>
   DiscoverNginxApps_body tiny_nginx_env insertion_sortSlice [''media.lan''] ''''
     = Result (dedupeAppsByBasePath insertion_sortSlice [''media.lan'']
         [lidarr_app ''http://media.lan/lidarr'', lidarr_app ''http://media.lan/lidarr/'']) \<and>
   distinct (map URL (dedupeAppsByBasePath insertion_sortSlice [''media.lan'']
         [lidarr_app ''http://media.lan/lidarr'', lidarr_app ''http://media.lan/lidarr/''])) \<and>
   ''http'' @ ''://'' @ ''media.lan'' @ ''/lidarr'' \<in> {''http://media.lan/lidarr''} \<and>
   location_step tiny_nginx_env ''http'' ''media.lan''
       ({''http://media.lan/lidarr''}, [lidarr_app ''http://media.lan/lidarr''], True)
       (''/lidarr'', ''Z}'')
     = ({''http://media.lan/lidarr''}, [lidarr_app ''http://media.lan/lidarr''], True) \<and>
   map URL (projr (queryUnraidContainers plain_unraid_env twin_reply ''http://192.168.1.100''))
     = [''http://192.168.1.100:32400/web'', ''http://192.168.1.100:32400/web'']"
proof -
  let ?l1 = "lidarr_app ''http://media.lan/lidarr''"
  let ?l2 = "lidarr_app ''http://media.lan/lidarr/''"
  note T = collectors_URL_uniqueness[OF insertion_sortSlice_sorts,
      of tiny_nginx_env "''''" "[''media.lan'']"]
  have hosts: "url_host (URL ?l1) = ''media.lan''" "url_host (URL ?l2) = ''media.lan''"
    by (simp_all add: url_host_def lidarr_app_def)
  have ro: "ranges_over [''media.lan''] (group_byHost [?l1, ?l2] Map.empty)"
    unfolding ranges_over_def dom_group_byHost using hosts by auto
  have h: "nginx_collect tiny_nginx_env '''' =
       Some ({''http://media.lan/lidarr'', ''http://media.lan/lidarr/''}, [?l1, ?l2]) \<and>
       ranges_over [''media.lan''] (group_byHost [?l1, ?l2] Map.empty)"
    using tiny_collect ro by simp
  from T[THEN conjunct1, rule_format, OF h]
  have b: "DiscoverNginxApps_body tiny_nginx_env insertion_sortSlice [''media.lan''] ''''
     = Result (dedupeAppsByBasePath insertion_sortSlice [''media.lan''] [?l1, ?l2])"
    and d: "distinct (map URL (dedupeAppsByBasePath insertion_sortSlice [''media.lan'']
         [?l1, ?l2]))"
    by blast+
  have m: "''http'' @ ''://'' @ ''media.lan'' @ ''/lidarr'' \<in> {''http://media.lan/lidarr''}"
    by simp
  from T[THEN conjunct2, THEN conjunct2, THEN conjunct1, rule_format, OF m]
  have ls: "location_step tiny_nginx_env ''http'' ''media.lan''
       ({''http://media.lan/lidarr''}, [?l1], True) (''/lidarr'', ''Z}'')
     = ({''http://media.lan/lidarr''}, [?l1], True)" .
  have u: "map URL (projr (queryUnraidContainers plain_unraid_env twin_reply
                             ''http://192.168.1.100''))
     = [''http://192.168.1.100:32400/web'', ''http://192.168.1.100:32400/web'']"
    unfolding twin_query by simp
  show ?thesis
    by (intro conjI) (fact insertion_sortSlice_sorts tiny_collect ro b d m ls u)+
qed

end
